theory Spec2Isabelle
  imports Main
begin

section \<open>Strings\<close>

text \<open>
  JavaScript strings are modelled as \<^typ>\<open>string\<close>; every character is one code unit
  below 256.  The functions of this section are the string methods the cloner calls.
\<close>

definition startsWith :: "string \<Rightarrow> string \<Rightarrow> bool" where
  "startsWith s p = (take (length p) s = p)"

definition endsWith :: "string \<Rightarrow> string \<Rightarrow> bool" where
  "endsWith s p = (length p \<le> length s \<and> drop (length s - length p) s = p)"

fun str_includes :: "string \<Rightarrow> string \<Rightarrow> bool" where
  "str_includes [] p = (p = [])"
| "str_includes (c # cs) p = (startsWith (c # cs) p \<or> str_includes cs p)"

fun joinWith :: "string \<Rightarrow> string list \<Rightarrow> string" where
  "joinWith sep [] = []"
| "joinWith sep [x] = x"
| "joinWith sep (x # y # ys) = x @ sep @ joinWith sep (y # ys)"

fun splitOn :: "char \<Rightarrow> string \<Rightarrow> string list" where
  "splitOn d [] = [[]]"
| "splitOn d (c # cs) =
     (if c = d then [] # splitOn d cs
      else (case splitOn d cs of [] \<Rightarrow> [[c]] | s # ss \<Rightarrow> (c # s) # ss))"

definition toLowerCase :: "string \<Rightarrow> string" where
  \<comment> \<open>\<open>A\<close> to \<open>Z\<close> and the capital letters of Latin-1 move up by 32\<close>
  "toLowerCase s =
     map (\<lambda>c. let n = (of_char c :: nat)
              in if (65 \<le> n \<and> n \<le> 90) \<or> (192 \<le> n \<and> n \<le> 222 \<and> n \<noteq> 215) then char_of (n + 32) else c) s"

fun digits :: "nat \<Rightarrow> string" where
  "digits n = (if n < 10 then [char_of (48 + n)] else digits (n div 10) @ [char_of (48 + n mod 10)])"

declare digits.simps [simp del]

section \<open>The path module (POSIX flavour)\<close>

text \<open>
  \<open>path.basename\<close>, \<open>path.extname\<close>, \<open>path.join\<close> and \<open>path.relative\<close> of Node.js, for
  \<open>/\<close>-separated paths.  \<open>basename\<close> ignores trailing separators; \<open>extname\<close> is the part of
  the last component from its last dot on, and is empty when that component has no dot,
  starts with its only dot, or is \<open>..\<close>.
\<close>

definition basename :: "string \<Rightarrow> string" where
  "basename p =
     rev (takeWhile (\<lambda>c. c \<noteq> CHR ''/'') (dropWhile (\<lambda>c. c = CHR ''/'') (rev p)))"

definition extname :: "string \<Rightarrow> string" where
  "extname p =
     (let b = basename p;
          startDot = length b - length (takeWhile (\<lambda>c. c \<noteq> CHR ''.'') (rev b)) - 1
      in if CHR ''.'' \<notin> set b \<or> startDot = 0 \<or> b = ''..'' then [] else drop startDot b)"

fun normalizeStep :: "bool \<Rightarrow> string list \<Rightarrow> string \<Rightarrow> string list" where
  "normalizeStep allowAboveRoot res seg =
     (if seg = [] \<or> seg = ''.'' then res
      else if seg = ''..'' then
        (case res of
           [] \<Rightarrow> if allowAboveRoot then [''..''] else []
         | t # ts \<Rightarrow> if t = ''..'' then (if allowAboveRoot then ''..'' # res else res) else ts)
      else seg # res)"

declare normalizeStep.simps [simp del]

definition normalizeString :: "bool \<Rightarrow> string \<Rightarrow> string list" where
  "normalizeString allowAboveRoot p =
     rev (foldl (normalizeStep allowAboveRoot) [] (splitOn CHR ''/'' p))"

definition normalize :: "string \<Rightarrow> string" where
  "normalize p =
     (if p = [] then ''.''
      else
        let isAbsolute = (hd p = CHR ''/'');
            trailingSeparator = (last p = CHR ''/'');
            q = joinWith ''/'' (normalizeString (\<not> isAbsolute) p)
        in if q = [] then (if isAbsolute then ''/'' else if trailingSeparator then ''./'' else ''.'')
           else (if isAbsolute then ''/'' else []) @ q @ (if trailingSeparator then ''/'' else []))"

definition path_join :: "string list \<Rightarrow> string" where
  "path_join args =
     (let joined = filter (\<lambda>a. a \<noteq> []) args
      in if joined = [] then ''.'' else normalize (joinWith ''/'' joined))"

definition path_resolve :: "string \<Rightarrow> string \<Rightarrow> string list" where
  \<comment> \<open>the components of \<open>path.resolve(p)\<close> in the absolute working directory \<open>cwd\<close>\<close>
  "path_resolve cwd p =
     normalizeString False (if p \<noteq> [] \<and> hd p = CHR ''/'' then p else cwd @ ''/'' @ p)"

fun dropCommon :: "string list \<Rightarrow> string list \<Rightarrow> string list \<times> string list" where
  "dropCommon (x # xs) (y # ys) = (if x = y then dropCommon xs ys else (x # xs, y # ys))"
| "dropCommon xs ys = (xs, ys)"

definition path_relative :: "string \<Rightarrow> string \<Rightarrow> string \<Rightarrow> string" where
  "path_relative cwd from to =
     (case dropCommon (path_resolve cwd from) (path_resolve cwd to) of
        (up, down) \<Rightarrow> joinWith ''/'' (replicate (length up) ''..'' @ down))"

section \<open>URLs\<close>

text \<open>
  The cloner reads three members of a parsed URL.  The WHATWG parser itself belongs to the
  runtime; it enters the model as a pair of functions, \<open>new URL(s)\<close> and \<open>new URL(ref, base)\<close>,
  where \<open>None\<close> stands for the \<open>TypeError\<close> the constructor throws.
\<close>

record URL =
  href :: string
  hostname :: string
  pathname :: string

record urllib =
  parseURL :: "string \<Rightarrow> URL option"
  resolveURL :: "string \<Rightarrow> string \<Rightarrow> URL option"

section \<open>File names\<close>

definition getFilename_pathname :: "string \<Rightarrow> string" where
  \<comment> \<open>the body of \<open>getFilename\<close> once \<open>urlObj.pathname\<close> is known\<close>
  "getFilename_pathname pn =
     (if pn = ''/'' \<or> pn = [] then ''index.html''
      else if endsWith pn ''/'' then pn @ ''index.html''
      else if extname pn = [] then pn @ ''.html''
      else drop 1 pn)"

definition getFilename :: "urllib \<Rightarrow> string \<Rightarrow> string option" where
  "getFilename L u =
     (case parseURL L u of
        None \<Rightarrow> None
      | Some urlObj \<Rightarrow> Some (getFilename_pathname (pathname urlObj)))"


section \<open>Guessing an extension\<close>

text \<open>
  \<open>mimeToExt\<close> is an object literal, and \<open>mimeToExt[key]\<close> also finds the members every
  object inherits from \<open>Object.prototype\<close>: functions, and the prototype itself under
  \<open>__proto__\<close>.  All of them are truthy, so \<open>|| ''\<close> lets them through, and the only use
  of the result is \<open>filename + extension\<close>; they are therefore listed by the string that
  concatenation converts them to.
\<close>

definition mimeToExt :: "(string \<times> string) list" where
  "mimeToExt =
     [(''text/css'', ''.css''),
      (''application/javascript'', ''.js''),
      (''text/javascript'', ''.js''),
      (''image/jpeg'', ''.jpg''),
      (''image/png'', ''.png''),
      (''image/gif'', ''.gif''),
      (''image/svg+xml'', ''.svg''),
      (''image/webp'', ''.webp'')]"

definition nativeFunction :: "string \<Rightarrow> string" where
  "nativeFunction name = ''function '' @ name @ ''() { [native code] }''"

definition Object_prototype :: "(string \<times> string) list" where
  "Object_prototype =
     [(''constructor'', nativeFunction ''Object''),
      (''__defineGetter__'', nativeFunction ''__defineGetter__''),
      (''__defineSetter__'', nativeFunction ''__defineSetter__''),
      (''hasOwnProperty'', nativeFunction ''hasOwnProperty''),
      (''__lookupGetter__'', nativeFunction ''__lookupGetter__''),
      (''__lookupSetter__'', nativeFunction ''__lookupSetter__''),
      (''isPrototypeOf'', nativeFunction ''isPrototypeOf''),
      (''propertyIsEnumerable'', nativeFunction ''propertyIsEnumerable''),
      (''toString'', nativeFunction ''toString''),
      (''valueOf'', nativeFunction ''valueOf''),
      (''__proto__'', ''[object Object]''),
      (''toLocaleString'', nativeFunction ''toLocaleString'')]"

definition guessExtension :: "string option \<Rightarrow> string" where
  \<comment> \<open>\<open>None\<close> is a response without a \<open>content-type\<close> header\<close>
  "guessExtension contentType =
     (case contentType of
        None \<Rightarrow> []
      | Some ct \<Rightarrow>
          if ct = [] then []
          else (case map_of (mimeToExt @ Object_prototype) (hd (splitOn CHR '';'' ct)) of
                  None \<Rightarrow> []
                | Some ext \<Rightarrow> ext))"

section \<open>Documents\<close>

text \<open>
  A parsed page is the list of its elements in document order; an element reference is its
  position in that list.  \<open>getAttr\<close> and \<open>setAttr\<close> are cheerio's \<open>.attr(name)\<close> and
  \<open>.attr(name, value)\<close>.
\<close>

record elem =
  tagName :: string
  attribs :: "(string \<times> string) list"

type_synonym document = "elem list"

fun assign :: "'k \<Rightarrow> 'v \<Rightarrow> ('k \<times> 'v) list \<Rightarrow> ('k \<times> 'v) list" where
  "assign k v [] = [(k, v)]"
| "assign k v (p # ps) = (if fst p = k then (k, v) # ps else p # assign k v ps)"

definition getAttr :: "elem \<Rightarrow> string \<Rightarrow> string option" where
  "getAttr el name = map_of (attribs el) name"

definition setAttr :: "string \<Rightarrow> string \<Rightarrow> elem \<Rightarrow> elem" where
  "setAttr name v el = el\<lparr>attribs := assign name v (attribs el)\<rparr>"

definition select :: "(elem \<Rightarrow> bool) \<Rightarrow> document \<Rightarrow> nat list" where
  "select P doc = map fst (filter (\<lambda>(i, el). P el) (enumerate 0 doc))"

definition hasAttr :: "string \<Rightarrow> elem \<Rightarrow> bool" where
  "hasAttr name el = (getAttr el name \<noteq> None)"

section \<open>The background-image pattern\<close>

text \<open>
  The regular expression \<open>/background-image:\s*url\(['"]?([^'")\s]+)['"]?\)/\<close>.  At a fixed
  start position it can match in one way only: each greedy quantifier is followed by a
  character it cannot consume, so no backtracking alternative succeeds.  \<open>matchHere\<close> gives
  the captured group and the text that follows the match; \<open>execFrom\<close> finds the leftmost match.
\<close>

definition isSpace :: "char \<Rightarrow> bool" where
  "isSpace c = (c \<in> set [CHR 0x09, CHR 0x0A, CHR 0x0B, CHR 0x0C, CHR 0x0D, CHR 0x20, CHR 0xA0])"

definition isQuote :: "char \<Rightarrow> bool" where
  "isQuote c = (c = CHR 0x27 \<or> c = CHR 0x22)"

definition urlChar :: "char \<Rightarrow> bool" where
  "urlChar c = (\<not> isQuote c \<and> c \<noteq> CHR '')'' \<and> \<not> isSpace c)"

definition optQuote :: "string \<Rightarrow> string" where
  "optQuote s = (case s of [] \<Rightarrow> [] | c # r \<Rightarrow> if isQuote c then r else s)"

definition matchHere :: "string \<Rightarrow> (string \<times> string) option" where
  "matchHere s =
     (if \<not> startsWith s ''background-image:'' then None
      else
        let s1 = dropWhile isSpace (drop 17 s)
        in if \<not> startsWith s1 ''url('' then None
           else
             let s2 = optQuote (drop 4 s1);
                 g = takeWhile urlChar s2;
                 s3 = optQuote (dropWhile urlChar s2)
             in if g = [] then None
                else (case s3 of [] \<Rightarrow> None
                      | c # r \<Rightarrow> if c = CHR '')'' then Some (g, r) else None))"

fun execFrom :: "string \<Rightarrow> string \<Rightarrow> (string \<times> string \<times> string \<times> string) option" where
  \<comment> \<open>text in front of the match, matched text, group 1, text behind the match\<close>
  "execFrom pre [] = None"
| "execFrom pre (c # cs) =
     (case matchHere (c # cs) of
        Some (g, rest) \<Rightarrow> Some (pre, take (length (c # cs) - length rest) (c # cs), g, rest)
      | None \<Rightarrow> execFrom (pre @ [c]) cs)"

fun expandTemplate :: "string \<Rightarrow> string \<Rightarrow> string \<Rightarrow> string \<Rightarrow> string" where
  \<comment> \<open>the \<open>$\<close> patterns of a replacement string, for a pattern without groups\<close>
  "expandTemplate pre matched post [] = []"
| "expandTemplate pre matched post [c] = [c]"
| "expandTemplate pre matched post (c # d # r) =
     (if c = CHR ''$'' \<and> d = CHR ''$'' then CHR ''$'' # expandTemplate pre matched post r
      else if c = CHR ''$'' \<and> d = CHR ''&'' then matched @ expandTemplate pre matched post r
      else if c = CHR ''$'' \<and> d = CHR 0x60 then pre @ expandTemplate pre matched post r
      else if c = CHR ''$'' \<and> d = CHR 0x27 then post @ expandTemplate pre matched post r
      else c # expandTemplate pre matched post (d # r))"

definition replaceBackgroundImage :: "string \<Rightarrow> string \<Rightarrow> string" where
  \<comment> \<open>\<open>style.replace(/background-image:\s*url\(['"]?[^'")\s]+['"]?\)/, replacement)\<close>\<close>
  "replaceBackgroundImage style replacement =
     (case execFrom [] style of
        None \<Rightarrow> style
      | Some (pre, matched, g, post) \<Rightarrow>
          pre @ expandTemplate pre matched post replacement @ post)"


section \<open>The cloner\<close>

subsection \<open>Options, environment and crawl state\<close>

text \<open>
  \<open>opt_maxDepth = None\<close> stands for an absent depth and for the \<open>NaN\<close> that \<open>parseInt\<close>
  returns on a non-number; both are falsy.  The constructor throws when \<open>new URL\<close> does.
  The request timeout and the React conversion play no part in the crawl and are left out.
\<close>

record options =
  opt_url :: string
  opt_outputDir :: "string option"
  opt_maxDepth :: "int option"
  opt_downloadAssets :: "bool option"

record cloner =
  this_url :: string
  outputDir :: string
  maxDepth :: int
  downloadAssets :: bool
  baseUrl :: URL

definition WebsiteCloner :: "urllib \<Rightarrow> options \<Rightarrow> cloner option" where
  "WebsiteCloner L opts =
     (case parseURL L (opt_url opts) of
        None \<Rightarrow> None
      | Some b \<Rightarrow>
          Some \<lparr>this_url = opt_url opts,
                outputDir = (case opt_outputDir opts of
                               None \<Rightarrow> ''./cloned-site''
                             | Some d \<Rightarrow> if d = [] then ''./cloned-site'' else d),
                maxDepth = (case opt_maxDepth opts of
                              None \<Rightarrow> 2
                            | Some n \<Rightarrow> if n = 0 then 2 else n),
                downloadAssets = (opt_downloadAssets opts \<noteq> Some False),
                baseUrl = b\<rparr>)"

text \<open>
  The world outside the process.  Every awaited request or file operation advances the
  clock of the crawl state by one, and the environment says how the operation issued at
  a given clock value ends: \<open>page_get\<close> is \<open>client.get\<close> followed by \<open>cheerio.load\<close>,
  \<open>asset_get\<close> is \<open>client.get\<close> of an asset and yields the \<open>content-type\<close> header of the
  response, \<open>fs_ok\<close> tells whether an \<open>ensureDir\<close> or \<open>writeFile\<close> succeeds (\<open>None\<close> and
  \<open>False\<close> are the rejected promise), \<open>now\<close> is \<open>Date.now()\<close>, and \<open>cwd\<close> is the absolute
  working directory.
\<close>

record env =
  page_get :: "nat \<Rightarrow> string \<Rightarrow> document option"
  asset_get :: "nat \<Rightarrow> string \<Rightarrow> string option option"
  fs_ok :: "nat \<Rightarrow> bool"
  now :: "nat \<Rightarrow> nat"
  cwd :: string

datatype event =
    Crawling int string
  | Downloading string
  | CrawlError string
  | AssetError string

text \<open>
  \<open>visitedUrls\<close> and \<open>downloadedAssets\<close> are Sets and \<open>assetMap\<close> is a Map; all three keep
  insertion order.  \<open>console\<close> collects the lines printed, \<open>pageFiles\<close> and \<open>assetFiles\<close>
  the files written: a page with its path and content, an asset with its path and the URL
  its bytes came from.
\<close>

record state =
  visitedUrls :: "string list"
  downloadedAssets :: "string list"
  assetMap :: "(string \<times> string) list"
  clock :: nat
  console :: "event list"
  pageFiles :: "(string \<times> document) list"
  assetFiles :: "(string \<times> string) list"

definition initial :: state where
  "initial = \<lparr>visitedUrls = [], downloadedAssets = [], assetMap = [], clock = 0,
               console = [], pageFiles = [], assetFiles = []\<rparr>"

definition add :: "string \<Rightarrow> string list \<Rightarrow> string list" where
  "add x xs = (if x \<in> set xs then xs else xs @ [x])"

definition tick :: "state \<Rightarrow> state" where
  "tick s = s\<lparr>clock := Suc (clock s)\<rparr>"

definition print :: "event \<Rightarrow> state \<Rightarrow> state" where
  "print e s = s\<lparr>console := console s @ [e]\<rparr>"

subsection \<open>Assets\<close>

record asset =
  element :: nat
  attr :: string
  url :: string
  type :: string
  isStyleAttribute :: bool
  originalStyle :: string

definition updateAssetReference :: "asset \<Rightarrow> string \<Rightarrow> document \<Rightarrow> document" where
  "updateAssetReference a localPath doc =
     (let relativePath = map (\<lambda>c. if c = CHR 0x5C then CHR ''/'' else c) localPath
      in if isStyleAttribute a then
           (let newStyle = replaceBackgroundImage (originalStyle a)
                             (''background-image: url('' @ [CHR 0x27] @ relativePath @ [CHR 0x27] @ '')'')
            in doc[element a := setAttr ''style'' newStyle (doc ! element a)])
         else doc[element a := setAttr (attr a) relativePath (doc ! element a)])"

definition finalFilename :: "string \<Rightarrow> string option \<Rightarrow> nat \<Rightarrow> string" where
  \<comment> \<open>lines 249 to 251 of \<open>downloadAsset\<close>: URL path, content type, \<open>Date.now()\<close>\<close>
  "finalFilename urlPath contentType t =
     (let filename = (if basename urlPath = [] then ''asset_'' @ digits t else basename urlPath);
          extension = (if extname filename = [] then guessExtension contentType
                       else extname filename)
      in if str_includes filename ''.'' then filename else filename @ extension)"

definition storeAsset ::
  "urllib \<Rightarrow> env \<Rightarrow> cloner \<Rightarrow> asset \<Rightarrow> string \<Rightarrow> state \<Rightarrow> state \<times> string option" where
  \<comment> \<open>lines 242 to 262 of \<open>downloadAsset\<close>: request, file name, write, bookkeeping.  The
      result is the state reached and the relative path, or \<open>None\<close> where a step throws\<close>
  "storeAsset L E C a absoluteUrl s =
     (let s1 = print (Downloading absoluteUrl) s
      in case asset_get E (clock s1) absoluteUrl of
           None \<Rightarrow> (tick s1, None)
         | Some contentType \<Rightarrow>
             (case parseURL L absoluteUrl of
                None \<Rightarrow> (tick s1, None)
              | Some parsed \<Rightarrow>
                  (let s2 = tick s1;
                       name = finalFilename (pathname parsed) contentType (now E (clock s2));
                       assetDir = path_join [outputDir C, ''assets'', type a];
                       localFilePath = path_join [assetDir, name];
                       relativePath = path_relative (cwd E) (outputDir C) localFilePath
                   in if \<not> fs_ok E (clock s2) then (tick s2, None)
                      else if \<not> fs_ok E (Suc (clock s2)) then (tick (tick s2), None)
                      else ((tick (tick s2))
                              \<lparr>assetFiles := assetFiles s2 @ [(localFilePath, absoluteUrl)],
                               downloadedAssets := add absoluteUrl (downloadedAssets s2),
                               assetMap := assign absoluteUrl relativePath (assetMap s2)\<rparr>,
                            Some relativePath))))"

fun downloadAsset ::
  "urllib \<Rightarrow> env \<Rightarrow> cloner \<Rightarrow> asset \<Rightarrow> string \<Rightarrow> document \<times> state \<Rightarrow> document \<times> state" where
  "downloadAsset L E C a pageUrl (doc, s) =
     (case resolveURL L (url a) pageUrl of
        None \<Rightarrow> (doc, print (AssetError (url a)) s)
      | Some resolved \<Rightarrow>
          (if href resolved \<in> set (downloadedAssets s) then
             (case map_of (assetMap s) (href resolved) of
                None \<Rightarrow> (doc, print (AssetError (url a)) s)
              | Some localPath \<Rightarrow> (updateAssetReference a localPath doc, s))
           else
             (case storeAsset L E C a (href resolved) s of
                (s', None) \<Rightarrow> (doc, print (AssetError (url a)) s')
              | (s', Some relativePath) \<Rightarrow> (updateAssetReference a relativePath doc, s'))))"

declare downloadAsset.simps [simp del]

definition scanAttribute :: "(elem \<Rightarrow> bool) \<Rightarrow> string \<Rightarrow> string \<Rightarrow> document \<Rightarrow> asset list" where
  \<comment> \<open>\<open>$(selector).each\<close> pushing one reference for every non-empty attribute value\<close>
  "scanAttribute sel name ty doc =
     concat (map (\<lambda>i. case getAttr (doc ! i) name of
                         None \<Rightarrow> []
                       | Some v \<Rightarrow>
                           if v = [] then []
                           else [\<lparr>element = i, attr = name, url = v, type = ty,
                                  isStyleAttribute = False, originalStyle = []\<rparr>])
                 (select sel doc))"

definition styled :: "elem \<Rightarrow> bool" where
  \<comment> \<open>the selector \<open>[style*="background-image"], [style*="background:"]\<close>\<close>
  "styled el =
     (case getAttr el ''style'' of
        None \<Rightarrow> False
      | Some st \<Rightarrow> str_includes st ''background-image'' \<or> str_includes st ''background:'')"

definition scanStyles :: "document \<Rightarrow> asset list" where
  "scanStyles doc =
     concat (map (\<lambda>i. let style = (case getAttr (doc ! i) ''style'' of None \<Rightarrow> [] | Some st \<Rightarrow> st)
                      in case execFrom [] style of
                           None \<Rightarrow> []
                         | Some (pre, matched, g, post) \<Rightarrow>
                             [\<lparr>element = i, attr = ''style'', url = g, type = ''image'',
                               isStyleAttribute = True, originalStyle = style\<rparr>])
                 (select styled doc))"

definition collectAssets :: "document \<Rightarrow> asset list" where
  \<comment> \<open>the four selections of \<open>processAssets\<close>, in its order.  In an HTML document the selector
      \<open>[rel="stylesheet"]\<close> compares the value of \<open>rel\<close> without regard to case\<close>
  "collectAssets doc =
     scanAttribute (\<lambda>el. tagName el = ''img'' \<and> hasAttr ''src'' el) ''src'' ''image'' doc
     @ scanAttribute (\<lambda>el. tagName el = ''link''
                            \<and> map_option toLowerCase (getAttr el ''rel'') = Some ''stylesheet''
                            \<and> hasAttr ''href'' el) ''href'' ''css'' doc
     @ scanAttribute (\<lambda>el. tagName el = ''script'' \<and> hasAttr ''src'' el) ''src'' ''js'' doc
     @ scanStyles doc"

definition processAssets ::
  "urllib \<Rightarrow> env \<Rightarrow> cloner \<Rightarrow> document \<Rightarrow> string \<Rightarrow> state \<Rightarrow> document \<times> state" where
  "processAssets L E C doc pageUrl s =
     fold (\<lambda>a. downloadAsset L E C a pageUrl) (collectAssets doc) (doc, s)"

subsection \<open>Links\<close>

definition isInternalLink :: "urllib \<Rightarrow> cloner \<Rightarrow> string \<Rightarrow> string \<Rightarrow> bool" where
  "isInternalLink L C h base =
     (if h = [] \<or> startsWith h ''#'' \<or> startsWith h ''mailto:'' \<or> startsWith h ''tel:'' then False
      else (case resolveURL L h base of
              None \<Rightarrow> False
            | Some u \<Rightarrow> hostname u = hostname (baseUrl C)))"

definition rewriteLink :: "urllib \<Rightarrow> cloner \<Rightarrow> string \<Rightarrow> nat \<Rightarrow> document \<Rightarrow> document option" where
  \<comment> \<open>the callback of \<open>rewriteLinks\<close> on one anchor; \<open>None\<close> when it throws\<close>
  "rewriteLink L C pageUrl i doc =
     (case getAttr (doc ! i) ''href'' of
        None \<Rightarrow> Some doc
      | Some h \<Rightarrow>
          if isInternalLink L C h pageUrl then
            (case resolveURL L h pageUrl of
               None \<Rightarrow> None
             | Some u \<Rightarrow>
                 (case getFilename L (href u) of
                    None \<Rightarrow> None
                  | Some localFilename \<Rightarrow>
                      Some (doc[i := setAttr ''href'' localFilename (doc ! i)])))
          else Some doc)"

fun rewriteEach :: "urllib \<Rightarrow> cloner \<Rightarrow> string \<Rightarrow> nat list \<Rightarrow> document \<Rightarrow> document option" where
  "rewriteEach L C pageUrl [] doc = Some doc"
| "rewriteEach L C pageUrl (i # is) doc =
     (case rewriteLink L C pageUrl i doc of
        None \<Rightarrow> None
      | Some doc' \<Rightarrow> rewriteEach L C pageUrl is doc')"

definition anchor :: "elem \<Rightarrow> bool" where
  "anchor el = (tagName el = ''a'' \<and> hasAttr ''href'' el)"

definition rewriteLinks :: "urllib \<Rightarrow> cloner \<Rightarrow> document \<Rightarrow> string \<Rightarrow> document option" where
  "rewriteLinks L C doc pageUrl = rewriteEach L C pageUrl (select anchor doc) doc"

definition extractInternalLinks ::
  "urllib \<Rightarrow> cloner \<Rightarrow> document \<Rightarrow> string \<Rightarrow> state \<Rightarrow> string list" where
  \<comment> \<open>the last line is \<open>[...new Set(links)]\<close>, which keeps first occurrences; the \<open>None\<close>
      branch of the resolution is not reachable, \<open>isInternalLink\<close> having resolved it\<close>
  "extractInternalLinks L C doc pageUrl s =
     (let links =
            concat (map (\<lambda>i. case getAttr (doc ! i) ''href'' of
                                None \<Rightarrow> []
                              | Some h \<Rightarrow>
                                  if h \<noteq> [] \<and> isInternalLink L C h pageUrl then
                                    (case resolveURL L h pageUrl of
                                       None \<Rightarrow> []
                                     | Some u \<Rightarrow>
                                         if href u \<notin> set (visitedUrls s) then [href u] else [])
                                  else [])
                        (select anchor doc))
      in rev (remdups (rev links)))"

subsection \<open>Crawling\<close>

definition savePage ::
  "urllib \<Rightarrow> env \<Rightarrow> cloner \<Rightarrow> string \<Rightarrow> document \<times> state \<Rightarrow> state \<times> string list" where
  \<comment> \<open>lines 168 to 178 of \<open>crawlPage\<close>: rewrite the links, write the page, extract the links
      to follow; ends in the \<open>catch\<close> clause, with no links, when a step throws\<close>
  "savePage L E C u ds =
     (case rewriteLinks L C (fst ds) u of
        None \<Rightarrow> (print (CrawlError u) (snd ds), [])
      | Some doc \<Rightarrow>
          (case getFilename L u of
             None \<Rightarrow> (print (CrawlError u) (snd ds), [])
           | Some filename \<Rightarrow>
               (let filepath = path_join [outputDir C, filename]
                in if \<not> fs_ok E (clock (snd ds)) then (print (CrawlError u) (tick (snd ds)), [])
                   else if \<not> fs_ok E (Suc (clock (snd ds)))
                   then (print (CrawlError u) (tick (tick (snd ds))), [])
                   else
                     (let s' = (tick (tick (snd ds)))\<lparr>pageFiles := pageFiles (snd ds) @ [(filepath, doc)]\<rparr>
                      in (s', extractInternalLinks L C doc u s')))))"

definition crawlPage_try ::
  "urllib \<Rightarrow> env \<Rightarrow> cloner \<Rightarrow> string \<Rightarrow> int \<Rightarrow> state \<Rightarrow> state \<times> string list" where
  \<comment> \<open>the \<open>try\<close> block of \<open>crawlPage\<close> up to its loop, with the \<open>catch\<close> clause: the state
      reached and the links the loop will visit (none once something was thrown)\<close>
  "crawlPage_try L E C u depth s =
     (let s1 = print (Crawling depth u) s
      in case page_get E (clock s1) u of
           None \<Rightarrow> (print (CrawlError u) (tick s1), [])
         | Some doc0 \<Rightarrow>
             (let s2 = (tick s1)\<lparr>visitedUrls := add u (visitedUrls s1)\<rparr>
              in savePage L E C u
                   (if downloadAssets C then processAssets L E C doc0 u s2 else (doc0, s2))))"

function crawlPage :: "urllib \<Rightarrow> env \<Rightarrow> cloner \<Rightarrow> string \<Rightarrow> int \<Rightarrow> state \<Rightarrow> state" where
  "crawlPage L E C u depth s =
     (if depth > maxDepth C \<or> u \<in> set (visitedUrls s) then s
      else case crawlPage_try L E C u depth s of
             (s', links) \<Rightarrow> fold (\<lambda>link. crawlPage L E C link (depth + 1)) links s')"
  by pat_completeness auto
termination
  by (relation "measure (\<lambda>(L, E, C, u, depth, s). nat (maxDepth C + 1 - depth))") auto

declare crawlPage.simps [simp del]

datatype clone_error = OutputDirError

definition clone :: "urllib \<Rightarrow> env \<Rightarrow> cloner \<Rightarrow> clone_error + state" where
  \<comment> \<open>\<open>clone\<close> without the optional React conversion that follows the crawl\<close>
  "clone L E C =
     (if \<not> fs_ok E 0 then Inl OutputDirError
      else Inr (crawlPage L E C (this_url C) 0 (tick initial)))"

definition cli_clone :: "urllib \<Rightarrow> env \<Rightarrow> options \<Rightarrow> (clone_error + state) option" where
  \<comment> \<open>the \<open>clone\<close> command of \<open>cli.js\<close>: construct the cloner from the parsed options, then
      run it; \<open>None\<close> when the URL is not valid\<close>
  "cli_clone L E opts = map_option (clone L E) (WebsiteCloner L opts)"

section \<open>Scenarios\<close>

text \<open>
  The scenarios below use URLs of the form \<open>http://host/path\<close> and references that are
  such a URL, a path starting with \<open>/\<close>, or a file name relative to the directory of the
  base.  \<open>scenarioURL\<close> reads these forms the way the WHATWG parser does (an absent path
  becomes \<open>/\<close>) and knows nothing of ports, queries, fragments or dot segments; it only
  serves to run the cloner on concrete sites.
\<close>

definition scenarioParse :: "string \<Rightarrow> URL option" where
  "scenarioParse s =
     (let scheme = (if startsWith s ''http://'' then ''http://''
                    else if startsWith s ''https://'' then ''https://'' else []);
          rest = drop (length scheme) s;
          host = takeWhile (\<lambda>c. c \<noteq> CHR ''/'') rest;
          path = dropWhile (\<lambda>c. c \<noteq> CHR ''/'') rest;
          path' = (if path = [] then ''/'' else path)
      in if scheme = [] \<or> host = [] then None
         else Some \<lparr>href = scheme @ host @ path', hostname = host, pathname = path'\<rparr>)"

definition scenarioResolve :: "string \<Rightarrow> string \<Rightarrow> URL option" where
  "scenarioResolve ref base =
     (case scenarioParse ref of
        Some u \<Rightarrow> Some u
      | None \<Rightarrow>
          (case scenarioParse base of
             None \<Rightarrow> None
           | Some b \<Rightarrow>
               if ref = [] then Some b
               else if startsWith ref ''/''
               then scenarioParse (take (length (href b) - length (pathname b)) (href b) @ ref)
               else scenarioParse (rev (dropWhile (\<lambda>c. c \<noteq> CHR ''/'') (rev (href b))) @ ref)))"

definition scenarioURL :: urllib where
  "scenarioURL = \<lparr>parseURL = scenarioParse, resolveURL = scenarioResolve\<rparr>"

definition scenarioEnv :: "(string \<Rightarrow> document option) \<Rightarrow> (string \<Rightarrow> string option option) \<Rightarrow> env" where
  \<comment> \<open>a world where the answer to a request depends on the URL only, every file operation
      succeeds and the clock of the crawl is the time\<close>
  "scenarioEnv pages assets =
     \<lparr>page_get = (\<lambda>t. pages), asset_get = (\<lambda>t. assets), fs_ok = (\<lambda>t. True),
      now = (\<lambda>t. t), cwd = ''/home/user''\<rparr>"

definition scenarioOptions :: "string \<Rightarrow> int \<Rightarrow> options" where
  "scenarioOptions root depth =
     \<lparr>opt_url = root, opt_outputDir = None, opt_maxDepth = Some depth, opt_downloadAssets = None\<rparr>"

definition a_href :: "string \<Rightarrow> elem" where
  "a_href h = \<lparr>tagName = ''a'', attribs = [(''href'', h)]\<rparr>"

definition img_src :: "string \<Rightarrow> elem" where
  "img_src u = \<lparr>tagName = ''img'', attribs = [(''src'', u)]\<rparr>"

definition script_src :: "string \<Rightarrow> elem" where
  "script_src u = \<lparr>tagName = ''script'', attribs = [(''src'', u)]\<rparr>"

definition link_css :: "string \<Rightarrow> elem" where
  "link_css h = \<lparr>tagName = ''link'', attribs = [(''rel'', ''stylesheet''), (''href'', h)]\<rparr>"

definition div_style :: "string \<Rightarrow> elem" where
  "div_style st = \<lparr>tagName = ''div'', attribs = [(''style'', st)]\<rparr>"

definition siteCloner :: cloner where
  \<comment> \<open>what the constructor builds for \<open>http://site.test/\<close> with the default options\<close>
  "siteCloner =
     \<lparr>this_url = ''http://site.test/'', outputDir = ''./cloned-site'', maxDepth = 2,
      downloadAssets = True,
      baseUrl = \<lparr>href = ''http://site.test/'', hostname = ''site.test'', pathname = ''/''\<rparr>\<rparr>"

definition logoAsset :: asset where
  "logoAsset = \<lparr>element = 0, attr = ''src'', url = ''/img/logo'', type = ''image'',
                isStyleAttribute = False, originalStyle = []\<rparr>"



definition pngEnv :: env where
  \<comment> \<open>every asset is served as \<open>image/png\<close>\<close>
  "pngEnv = scenarioEnv (\<lambda>u. None) (\<lambda>u. Some (Some ''image/png''))"

definition otherEnv :: env where
  \<comment> \<open>the same answers at another time and in another working directory\<close>
  "otherEnv = \<lparr>page_get = (\<lambda>t u. None), asset_get = (\<lambda>t u. Some (Some ''image/png'')),
               fs_ok = (\<lambda>t. True), now = (\<lambda>t. 1000 + t), cwd = ''/srv/mirror/work''\<rparr>"




definition cssEnv :: env where
  \<comment> \<open>a site of two pages that use the same style sheet\<close>
  "cssEnv = scenarioEnv
     (\<lambda>u. if u = ''http://site.test/'' then Some [link_css ''/css/site.css'', a_href ''/b.html'']
          else if u = ''http://site.test/b.html'' then Some [link_css ''/css/site.css'']
          else None)
     (\<lambda>u. if u = ''http://site.test/css/site.css'' then Some (Some ''text/css'') else None)"







section \<open>Notions used in the properties\<close>








fun isCrawlOf :: "string \<Rightarrow> event \<Rightarrow> bool" where
  "isCrawlOf u (Crawling d v) = (v = u)"
| "isCrawlOf u e = False"

definition crawlsOf :: "string \<Rightarrow> state \<Rightarrow> event list" where
  \<comment> \<open>the times \<open>crawlPage\<close> went past its guard for the URL \<open>u\<close>\<close>
  "crawlsOf u s = filter (isCrawlOf u) (console s)"

fun crawlDepth :: "event \<Rightarrow> int list" where
  "crawlDepth (Crawling d v) = [d]"
| "crawlDepth e = []"

definition depths :: "state \<Rightarrow> int list" where
  \<comment> \<open>the depths at which pages were crawled, in order\<close>
  "depths s = concat (map crawlDepth (console s))"

fun assetEvent :: "event \<Rightarrow> bool" where
  "assetEvent (Downloading u) = True"
| "assetEvent (AssetError u) = True"
| "assetEvent e = False"

definition quiet :: "state \<Rightarrow> state \<Rightarrow> bool" where
  \<comment> \<open>a step of the asset pipeline: pages and visited set untouched, only asset lines printed\<close>
  "quiet s s' =
     (visitedUrls s' = visitedUrls s \<and> pageFiles s' = pageFiles s
      \<and> (\<exists>c. console s' = console s @ c \<and> list_all assetEvent c))"


definition bounded :: "int \<Rightarrow> state \<Rightarrow> state \<Rightarrow> bool" where
  \<comment> \<open>a step that crawls at depths up to \<open>m\<close> only\<close>
  "bounded m s s' = (\<exists>ds. depths s' = depths s @ ds \<and> list_all (\<lambda>d. d \<le> m) ds)"

definition plainSegment :: "string \<Rightarrow> bool" where
  \<comment> \<open>a path component that normalisation keeps as it is\<close>
  "plainSegment x = (x \<noteq> [] \<and> CHR ''/'' \<notin> set x \<and> x \<noteq> ''.'' \<and> x \<noteq> ''..'')"

definition stackOk :: "bool \<Rightarrow> string list \<Rightarrow> bool" where
  \<comment> \<open>what the components kept by \<open>normalizeString\<close> look like\<close>
  "stackOk b st = (\<forall>x \<in> set st. x \<noteq> [] \<and> x \<noteq> ''.'' \<and> (\<not> b \<longrightarrow> x \<noteq> ''..''))"

section \<open>Bookkeeping lemmas\<close>


lemma tick_fields [simp]:
  "visitedUrls (tick s) = visitedUrls s" "downloadedAssets (tick s) = downloadedAssets s"
  "assetMap (tick s) = assetMap s" "clock (tick s) = Suc (clock s)" "console (tick s) = console s"
  "pageFiles (tick s) = pageFiles s" "assetFiles (tick s) = assetFiles s"
  by (simp_all add: tick_def)

lemma print_fields [simp]:
  "visitedUrls (print e s) = visitedUrls s" "downloadedAssets (print e s) = downloadedAssets s"
  "assetMap (print e s) = assetMap s" "clock (print e s) = clock s" "console (print e s) = console s @ [e]"
  "pageFiles (print e s) = pageFiles s" "assetFiles (print e s) = assetFiles s"
  by (simp_all add: print_def)

lemma map_fst_assign: "map fst (assign k v ps) = (if k \<in> fst ` set ps then map fst ps else map fst ps @ [k])"
  by (induction ps) auto

lemma map_of_assign: "map_of (assign k v ps) = (map_of ps)(k \<mapsto> v)"
  by (induction ps) (auto simp: fun_eq_iff)


lemma storeAsset_None:
  assumes "storeAsset L E C a u s = (s', None)"
  shows "downloadedAssets s' = downloadedAssets s \<and> assetMap s' = assetMap s \<and> assetFiles s' = assetFiles s
         \<and> visitedUrls s' = visitedUrls s \<and> pageFiles s' = pageFiles s
         \<and> console s' = console s @ [Downloading u]"
  using assms by (auto simp: storeAsset_def Let_def split: option.splits if_splits)

lemma storeAsset_Some:
  assumes "storeAsset L E C a u s = (s', Some rp)"
  shows "downloadedAssets s' = add u (downloadedAssets s) \<and> assetMap s' = assign u rp (assetMap s)
         \<and> (\<exists>lfp. assetFiles s' = assetFiles s @ [(lfp, u)])
         \<and> visitedUrls s' = visitedUrls s \<and> pageFiles s' = pageFiles s
         \<and> console s' = console s @ [Downloading u] \<and> clock s' = clock s + 3"
  using assms by (auto simp: storeAsset_def Let_def split: option.splits if_splits)


lemma fold_rel:
  assumes "\<And>s. R s s" and "\<And>s1 s2 s3. R s1 s2 \<Longrightarrow> R s2 s3 \<Longrightarrow> R s1 s3"
    and "\<And>x st. x \<in> set xs \<Longrightarrow> R st (f x st)"
  shows "R s (fold f xs s)"
  using assms(3)
proof (induction xs arbitrary: s)
  case Nil
  show ?case by (simp add: assms(1))
next
  case (Cons x xs)
  have "R s (f x s)" using Cons.prems by simp
  moreover have "R (f x s) (fold f xs (f x s))" using Cons by simp
  ultimately show ?case using assms(2) by auto
qed

lemma crawlPage_rel:
  assumes refl: "\<And>s. R s s" and trans: "\<And>s1 s2 s3. R s1 s2 \<Longrightarrow> R s2 s3 \<Longrightarrow> R s1 s3"
    and step: "\<And>v d s. d \<le> maxDepth C \<Longrightarrow> v \<notin> set (visitedUrls s) \<Longrightarrow> R s (fst (crawlPage_try L E C v d s))"
  shows "R s (crawlPage L E C u depth s)"
  using step
proof (induction L E C u depth s rule: crawlPage.induct)
  case (1 L E C u depth s)
  show ?case
  proof (cases "maxDepth C < depth \<or> u \<in> set (visitedUrls s)")
    case True
    then show ?thesis by (simp add: crawlPage.simps refl)
  next
    case False
    obtain s' links where t: "crawlPage_try L E C u depth s = (s', links)"
      by (cases "crawlPage_try L E C u depth s")
    have a: "R s s'" using "1.prems"[of depth u s] False t by simp
    have b: "R s' (fold (\<lambda>link. crawlPage L E C link (depth + 1)) links s')"
    proof (rule fold_rel[where R = R])
      show "\<And>s. R s s" by (rule refl)
      show "\<And>s1 s2 s3. R s1 s2 \<Longrightarrow> R s2 s3 \<Longrightarrow> R s1 s3" by (rule trans)
      fix x st assume "x \<in> set links"
      then show "R st (crawlPage L E C x (depth + 1) st)"
        using "1.IH"[OF False t[symmetric]] "1.prems" by blast
    qed
    show ?thesis using trans[OF a b] False t by (simp add: crawlPage.simps)
  qed
qed

lemma processAssets_rel:
  assumes refl: "\<And>s. R s s" and trans: "\<And>s1 s2 s3. R s1 s2 \<Longrightarrow> R s2 s3 \<Longrightarrow> R s1 s3"
    and step: "\<And>a doc s. R s (snd (downloadAsset L E C a p (doc, s)))"
  shows "R s (snd (processAssets L E C doc p s))"
proof -
  have "R (snd ds) (snd (fold (\<lambda>a. downloadAsset L E C a p) as ds))" for as ds
  proof (induction as arbitrary: ds)
    case Nil
    show ?case by (simp add: refl)
  next
    case (Cons a as)
    have "R (snd ds) (snd (downloadAsset L E C a p ds))" using step[where a=a and doc="fst ds" and s="snd ds"] by simp
    then show ?case using Cons[of "downloadAsset L E C a p ds"] trans by auto
  qed
  from this[of "(doc, s)"] show ?thesis by (simp add: processAssets_def)
qed


lemma quiet_refl: "quiet s s"
  by (simp add: quiet_def)

lemma quiet_trans: "quiet s1 s2 \<Longrightarrow> quiet s2 s3 \<Longrightarrow> quiet s1 s3"
  by (auto simp: quiet_def)

lemma quiet_AssetError: "quiet s s' \<Longrightarrow> quiet s (print (AssetError x) s')"
  by (auto simp: quiet_def)

lemma storeAsset_quiet: "storeAsset L E C a u s = (s', r) \<Longrightarrow> quiet s s'"
  by (cases r) (auto simp: quiet_def dest!: storeAsset_None storeAsset_Some)

lemma downloadAsset_quiet: "quiet s (snd (downloadAsset L E C a p (doc, s)))"
  by (auto simp: downloadAsset.simps quiet_refl quiet_AssetError storeAsset_quiet
           split: option.splits prod.splits)

lemma processAssets_quiet: "quiet s (snd (processAssets L E C doc p s))"
  by (rule processAssets_rel[where R = quiet]) (auto intro: quiet_refl quiet_trans downloadAsset_quiet)

lemma quiet_crawlsOf: "quiet s s' \<Longrightarrow> crawlsOf u s' = crawlsOf u s"
proof -
  have "list_all assetEvent c \<Longrightarrow> filter (isCrawlOf u) c = []" for c
    by (induction c) (auto elim: assetEvent.elims)
  then show "quiet s s' \<Longrightarrow> crawlsOf u s' = crawlsOf u s"
    by (auto simp: quiet_def crawlsOf_def)
qed

lemma quiet_depths: "quiet s s' \<Longrightarrow> depths s' = depths s"
proof -
  have "list_all assetEvent c \<Longrightarrow> concat (map crawlDepth c) = []" for c
    by (induction c) (auto elim: assetEvent.elims)
  then show "quiet s s' \<Longrightarrow> depths s' = depths s"
    by (auto simp: quiet_def depths_def)
qed

lemma processAssets_visitedUrls [simp]:
  "visitedUrls (snd (processAssets L E C doc p s)) = visitedUrls s"
  using processAssets_quiet[of s L E C doc p] by (simp add: quiet_def)


lemma processAssets_crawlsOf [simp]:
  "filter (isCrawlOf x) (console (snd (processAssets L E C doc p s))) = filter (isCrawlOf x) (console s)"
  using quiet_crawlsOf[OF processAssets_quiet[of s L E C doc p], of x] by (simp add: crawlsOf_def)

lemma processAssets_depths [simp]:
  "concat (map crawlDepth (console (snd (processAssets L E C doc p s)))) = concat (map crawlDepth (console s))"
  using quiet_depths[OF processAssets_quiet[of s L E C doc p]] by (simp add: depths_def)

lemma extractInternalLinks_fresh:
  assumes "x \<in> set (extractInternalLinks L C doc p s)"
  shows "x \<notin> set (visitedUrls s)"
proof -
  define G where "G = (\<lambda>h. case resolveURL L h p of None \<Rightarrow> []
                           | Some u \<Rightarrow> if href u \<notin> set (visitedUrls s) then [href u] else [])"
  define F where "F = (\<lambda>i. case getAttr (doc ! i) ''href'' of None \<Rightarrow> []
                  | Some h \<Rightarrow> if h \<noteq> [] \<and> isInternalLink L C h p then G h else [])"
  have "extractInternalLinks L C doc p s = rev (remdups (rev (concat (map F (select anchor doc)))))"
    unfolding extractInternalLinks_def Let_def F_def G_def ..
  then have "x \<in> set (concat (map F (select anchor doc)))" using assms by simp
  then obtain i where "x \<in> set (F i)" by auto
  then obtain h where "x \<in> set (G h)"
    unfolding F_def by (cases "getAttr (doc ! i) ''href''") (auto split: if_split_asm)
  then show ?thesis unfolding G_def
    by (cases "resolveURL L h p") (auto split: if_split_asm)
qed

lemma savePage_visitedUrls [simp]: "visitedUrls (fst (savePage L E C u ds)) = visitedUrls (snd ds)"
  by (simp add: savePage_def Let_def split: option.splits)

lemma savePage_assets [simp]:
  "downloadedAssets (fst (savePage L E C u ds)) = downloadedAssets (snd ds)"
  "assetMap (fst (savePage L E C u ds)) = assetMap (snd ds)"
  "assetFiles (fst (savePage L E C u ds)) = assetFiles (snd ds)"
  by (simp_all add: savePage_def Let_def split: option.splits)

lemma savePage_crawlsOf [simp]:
  "filter (isCrawlOf x) (console (fst (savePage L E C u ds))) = filter (isCrawlOf x) (console (snd ds))"
  by (simp add: savePage_def Let_def split: option.splits)

lemma savePage_depths [simp]:
  "concat (map crawlDepth (console (fst (savePage L E C u ds)))) = concat (map crawlDepth (console (snd ds)))"
  by (simp add: savePage_def Let_def split: option.splits)

lemma savePage_links_fresh:
  "set (snd (savePage L E C u ds)) \<inter> set (visitedUrls (fst (savePage L E C u ds))) = {}"
  by (auto simp: savePage_def Let_def split: option.splits dest: extractInternalLinks_fresh)



lemma crawlPage_try_depths:
  "depths (fst (crawlPage_try L E C u d s)) = depths s @ [d]"
  by (simp add: crawlPage_try_def depths_def Let_def split: option.splits)


lemma crawlPage_try_links_fresh:
  "set (snd (crawlPage_try L E C u d s)) \<inter> set (visitedUrls (fst (crawlPage_try L E C u d s))) = {}"
  using savePage_links_fresh by (simp add: crawlPage_try_def Let_def split: option.splits)









lemma crawlPage_bounded: "bounded (maxDepth C) s (crawlPage L E C u d s)"
proof (rule crawlPage_rel[where R = "bounded (maxDepth C)"])
  show "\<And>s. bounded (maxDepth C) s s" by (simp add: bounded_def)
  show "\<And>s1 s2 s3. bounded (maxDepth C) s1 s2 \<Longrightarrow> bounded (maxDepth C) s2 s3 \<Longrightarrow> bounded (maxDepth C) s1 s3"
    by (auto simp: bounded_def)
  show "\<And>v d s. d \<le> maxDepth C \<Longrightarrow> v \<notin> set (visitedUrls s) \<Longrightarrow> bounded (maxDepth C) s (fst (crawlPage_try L E C v d s))"
    by (simp add: bounded_def crawlPage_try_depths)
qed



section \<open>The claims\<close>

subsection \<open>C3: the depth bound\<close>

lemma crawl_depth_bounded:
  "depths (crawlPage L E C u d s) = depths s @ ds \<Longrightarrow> list_all (\<lambda>k. k \<le> maxDepth C) ds"
  using crawlPage_bounded[of C s L E u d] by (auto simp: bounded_def)

text \<open>
  C3.  The claim: with \<open>maxDepth = N\<close> no page more than \<open>N\<close> edges from the root is fetched,
  and with \<open>maxDepth = 0\<close> only the root page is fetched and written, as \<open>index.html\<close>.
  The guard of \<open>crawlPage\<close> does bound the depth by the cloner's \<open>maxDepth\<close>
  (\<open>crawl_depth_bounded\<close>), but the constructor reads the option with \<open>|| 2\<close>, and \<open>0\<close> is
  falsy: asked for depth 0, the cloner works with depth 2.  On a site whose root page
  links to \<open>/a.html\<close> it then fetches that page at depth 1 and writes two files.
\<close>

theorem depth_zero_follows_links:
  "map_option maxDepth (WebsiteCloner scenarioURL (scenarioOptions ''http://site.test/'' 0)) = Some 2
   \<and> (case cli_clone scenarioURL (scenarioEnv (\<lambda>u. Some [a_href ''/a.html'']) (\<lambda>u. None))
              (scenarioOptions ''http://site.test/'' 0) of
         Some (Inr s) \<Rightarrow>
           console s = [Crawling 0 ''http://site.test/'', Crawling 1 ''http://site.test/a.html'']
           \<and> map fst (pageFiles s) = [''cloned-site/index.html'', ''cloned-site/a.html'']
       | _ \<Rightarrow> False)"
  by code_simp

subsection \<open>C5: file names are not idempotent\<close>

text \<open>
  C5.  The claim: \<open>getFilename\<close> is idempotent when its output is read again as a path,
  \<open>localFilename(localFilename(u)) = localFilename(u)\<close>.  The last branch of the function
  removes the leading slash and the first returns a bare \<open>index.html\<close>, but the two
  branches in between return the path with its leading slash.  For \<open>http://site.test/about\<close>
  the result is \<open>/about.html\<close>, and that path is mapped to \<open>about.html\<close>, a different string.
\<close>

theorem getFilename_not_idempotent:
  "getFilename scenarioURL ''http://site.test/about'' = Some ''/about.html''
   \<and> getFilename_pathname ''/about'' = ''/about.html''
   \<and> getFilename_pathname (getFilename_pathname ''/about'') = ''about.html''"
  by code_simp

subsection \<open>C8: inline background images\<close>

lemma background_image_rewritten:
  "processAssets scenarioURL (scenarioEnv (\<lambda>u. None) (\<lambda>u. Some (Some ''image/jpeg''))) siteCloner
     [div_style ''color: red; background-image: url(/bg.jpg); margin: 0''] ''http://site.test/'' initial
   = ([div_style (''color: red; background-image: url('' @ [CHR 0x27] @ ''assets/image/bg.jpg''
                  @ [CHR 0x27] @ ''); margin: 0'')],
      initial\<lparr>downloadedAssets := [''http://site.test/bg.jpg''],
               assetMap := [(''http://site.test/bg.jpg'', ''assets/image/bg.jpg'')],
               clock := 3,
               console := [Downloading ''http://site.test/bg.jpg''],
               assetFiles := [(''cloned-site/assets/image/bg.jpg'', ''http://site.test/bg.jpg'')]\<rparr>)"
  by code_simp

text \<open>
  C8.  The claim: every element whose inline style has a \<open>background-image\<close> or a
  \<open>background:\<close> declaration with a \<open>url(...)\<close> value is captured as an asset reference
  and rewritten after the download.  For \<open>background-image\<close> this is what happens
  (\<open>background_image_rewritten\<close>).  The selector of \<open>processAssets\<close> also picks the elements
  whose style contains \<open>background:\<close>, but the pattern applied to the style text only
  knows \<open>background-image:\<close>: an element styled \<open>background: url(/bg.jpg)\<close> is selected,
  yields no reference, and nothing is downloaded or rewritten for it.
\<close>

theorem background_shorthand_not_captured:
  "styled (div_style ''background: url(/bg.jpg)'')
   \<and> collectAssets [div_style ''background: url(/bg.jpg)''] = []
   \<and> processAssets scenarioURL (scenarioEnv (\<lambda>u. None) (\<lambda>u. Some (Some ''image/jpeg''))) siteCloner
         [div_style ''background: url(/bg.jpg)''] ''http://site.test/'' initial
       = ([div_style ''background: url(/bg.jpg)''], initial)"
  by code_simp

subsection \<open>C9: the guessed extension\<close>

lemma guessExtension_table:
  "guessExtension (Some ''text/css'') = ''.css''"
  "guessExtension (Some ''text/javascript'') = ''.js''"
  "guessExtension (Some ''application/javascript'') = ''.js''"
  "guessExtension (Some ''image/jpeg'') = ''.jpg''"
  "guessExtension (Some ''image/png'') = ''.png''"
  "guessExtension (Some ''image/gif'') = ''.gif''"
  "guessExtension (Some ''image/svg+xml'') = ''.svg''"
  "guessExtension (Some ''image/webp'') = ''.webp''"
  "guessExtension None = []"
  by code_simp+

lemma guessExtension_unlisted:
  assumes "hd (splitOn CHR '';'' ct) \<notin> fst ` set mimeToExt"
    and "hd (splitOn CHR '';'' ct) \<notin> fst ` set Object_prototype"
  shows "guessExtension (Some ct) = []"
proof -
  have "map_of (mimeToExt @ Object_prototype) (hd (splitOn CHR '';'' ct)) = None"
    using assms by (simp add: map_of_eq_None_iff image_Un del: map_of_append)
  then show ?thesis by (simp add: guessExtension_def del: map_of_append)
qed

lemma logo_saved_as_png:
  "fst (processAssets scenarioURL (scenarioEnv (\<lambda>u. None) (\<lambda>u. Some (Some ''image/png''))) siteCloner
          [img_src ''/img/logo''] ''http://site.test/'' initial)
     = [img_src ''assets/image/logo.png'']
   \<and> assetFiles (snd (processAssets scenarioURL (scenarioEnv (\<lambda>u. None) (\<lambda>u. Some (Some ''image/png'')))
          siteCloner [img_src ''/img/logo''] ''http://site.test/'' initial))
     = [(''cloned-site/assets/image/logo.png'', ''http://site.test/img/logo'')]"
  by code_simp

text \<open>
  C9.  The claim: the saved file name comes from the basename of the URL path; without
  an extension, one is guessed from the content type by the fixed table, and an unknown
  content type gets no extension appended.  The table is as stated
  (\<open>guessExtension_table\<close>), and a content type that names nothing gets no extension
  (\<open>guessExtension_unlisted\<close>).  But the table is a plain object, and looking a key up in it
  also finds what every object inherits: for the content type \<open>constructor\<close>, which the
  table does not list, the lookup yields the function \<open>Object\<close>, which is truthy and is
  appended to the name as text.
\<close>

theorem inherited_member_appended:
  "guessExtension (Some ''constructor'') = ''function Object() { [native code] }''
   \<and> finalFilename ''/img/logo'' (Some ''constructor'') 0 = ''logofunction Object() { [native code] }''
   \<and> assetMap (snd (processAssets scenarioURL
                       (scenarioEnv (\<lambda>u. None) (\<lambda>u. Some (Some ''constructor''))) siteCloner
                       [img_src ''/img/logo''] ''http://site.test/'' initial))
       = [(''http://site.test/img/logo'', ''assets/image/logofunction Object() { [native code] }'')]"
  by code_simp

subsection \<open>C7: internal and external links\<close>

lemma rewriteLink_length: "rewriteLink L C p j doc = Some doc' \<Longrightarrow> length doc' = length doc"
  by (auto simp: rewriteLink_def split: option.splits if_splits)

lemma rewriteLink_other: "rewriteLink L C p j doc = Some doc' \<Longrightarrow> j \<noteq> i \<Longrightarrow> doc' ! i = doc ! i"
  by (auto simp: rewriteLink_def split: option.splits if_splits)

lemma rewriteLink_external:
  "rewriteLink L C p i doc = Some doc' \<Longrightarrow> getAttr (doc ! i) ''href'' = Some h \<Longrightarrow>
   \<not> isInternalLink L C h p \<Longrightarrow> doc' = doc"
  by (simp add: rewriteLink_def)

lemma rewriteEach_external:
  "rewriteEach L C p js doc = Some doc' \<Longrightarrow> getAttr (doc ! i) ''href'' = Some h \<Longrightarrow>
   \<not> isInternalLink L C h p \<Longrightarrow> doc' ! i = doc ! i"
proof (induction js arbitrary: doc)
  case Nil
  then show ?case by simp
next
  case (Cons j js)
  from Cons.prems(1) obtain doc1 where
    j: "rewriteLink L C p j doc = Some doc1" and rest: "rewriteEach L C p js doc1 = Some doc'"
    by (auto split: option.splits)
  have same: "doc1 ! i = doc ! i"
  proof (cases "j = i")
    case True
    then show ?thesis using rewriteLink_external[of L C p i doc doc1 h] j Cons.prems by simp
  next
    case False
    then show ?thesis using rewriteLink_other[OF j] by simp
  qed
  then have "doc' ! i = doc1 ! i" using Cons.IH[OF rest] Cons.prems by simp
  then show ?case using same by simp
qed

text \<open>
  C7.  \<open>isInternalLink\<close> is false for an empty href and for one that starts with \<open>#\<close>,
  \<open>mailto:\<close> or \<open>tel:\<close>; it is false, and nothing is thrown, when the href does not
  resolve against the base; in every other case it tells whether the resolved host name
  is the host name of the root.  An anchor whose href is not internal is the same element
  before and after \<open>rewriteLinks\<close>, as \<open>https://other.example/x\<close> on the site
  \<open>site.test\<close>.
\<close>

theorem external_links_untouched:
  "(h = [] \<or> startsWith h ''#'' \<or> startsWith h ''mailto:'' \<or> startsWith h ''tel:''
      \<longrightarrow> \<not> isInternalLink L C h base)
   \<and> (resolveURL L h base = None \<longrightarrow> \<not> isInternalLink L C h base)
   \<and> (h \<noteq> [] \<and> \<not> startsWith h ''#'' \<and> \<not> startsWith h ''mailto:'' \<and> \<not> startsWith h ''tel:''
        \<and> resolveURL L h base = Some u
      \<longrightarrow> isInternalLink L C h base = (hostname u = hostname (baseUrl C)))
   \<and> (rewriteLinks L C doc base = Some doc' \<and> getAttr (doc ! i) ''href'' = Some h
        \<and> \<not> isInternalLink L C h base
      \<longrightarrow> doc' ! i = doc ! i)"
proof (intro conjI impI)
  assume "h = [] \<or> startsWith h ''#'' \<or> startsWith h ''mailto:'' \<or> startsWith h ''tel:''"
  then show "\<not> isInternalLink L C h base" by (simp add: isInternalLink_def)
next
  assume "resolveURL L h base = None"
  then show "\<not> isInternalLink L C h base" by (simp add: isInternalLink_def)
next
  assume "h \<noteq> [] \<and> \<not> startsWith h ''#'' \<and> \<not> startsWith h ''mailto:'' \<and> \<not> startsWith h ''tel:''
        \<and> resolveURL L h base = Some u"
  then show "isInternalLink L C h base = (hostname u = hostname (baseUrl C))"
    by (simp add: isInternalLink_def)
next
  assume "rewriteLinks L C doc base = Some doc' \<and> getAttr (doc ! i) ''href'' = Some h
        \<and> \<not> isInternalLink L C h base"
  then show "doc' ! i = doc ! i"
    using rewriteEach_external[of L C base "select anchor doc" doc doc' i h]
    by (simp add: rewriteLinks_def)
qed

theorem external_links_untouched_witness:
  "\<not> isInternalLink scenarioURL siteCloner ''#top'' ''http://site.test/''
   \<and> resolveURL scenarioURL ''https://other.example/x'' ''http://site.test/''
       = Some \<lparr>href = ''https://other.example/x'', hostname = ''other.example'', pathname = ''/x''\<rparr>
   \<and> \<not> isInternalLink scenarioURL siteCloner ''https://other.example/x'' ''http://site.test/''
   \<and> rewriteLinks scenarioURL siteCloner [a_href ''/about'', a_href ''https://other.example/x'']
         ''http://site.test/'' = Some [a_href ''/about.html'', a_href ''https://other.example/x'']
   \<and> [a_href ''/about.html'', a_href ''https://other.example/x''] ! 1
       = [a_href ''/about'', a_href ''https://other.example/x''] ! 1"
proof -
  let ?doc = "[a_href ''/about'', a_href ''https://other.example/x'']"
  let ?doc' = "[a_href ''/about.html'', a_href ''https://other.example/x'']"
  let ?u = "\<lparr>href = ''https://other.example/x'', hostname = ''other.example'', pathname = ''/x''\<rparr>"
  have hash: "startsWith ''#top'' ''#''" by code_simp
  have res: "resolveURL scenarioURL ''https://other.example/x'' ''http://site.test/'' = Some ?u"
    by code_simp
  have pre: "''https://other.example/x'' \<noteq> [] \<and> \<not> startsWith ''https://other.example/x'' ''#''
      \<and> \<not> startsWith ''https://other.example/x'' ''mailto:''
      \<and> \<not> startsWith ''https://other.example/x'' ''tel:''" by code_simp
  have host: "hostname ?u \<noteq> hostname (baseUrl siteCloner)" by code_simp
  have rw: "rewriteLinks scenarioURL siteCloner ?doc ''http://site.test/'' = Some ?doc'" by code_simp
  have at: "getAttr (?doc ! 1) ''href'' = Some ''https://other.example/x''" by code_simp
  have a: "\<not> isInternalLink scenarioURL siteCloner ''#top'' ''http://site.test/''"
    using external_links_untouched[of "''#top''" scenarioURL siteCloner "''http://site.test/''"] hash
    by blast
  have b: "\<not> isInternalLink scenarioURL siteCloner ''https://other.example/x'' ''http://site.test/''"
    using external_links_untouched[of "''https://other.example/x''" scenarioURL siteCloner
        "''http://site.test/''" ?u] pre res host by blast
  have c: "?doc' ! 1 = ?doc ! 1"
    using external_links_untouched[of "''https://other.example/x''" scenarioURL siteCloner
        "''http://site.test/''" ?u ?doc ?doc' 1] rw at b by blast
  show ?thesis using a b c res rw by blast
qed

subsection \<open>C4: the file name of a page\<close>

lemma splitOn_nonempty [simp]: "splitOn d s \<noteq> []"
  by (induction s) (auto split: list.splits)

lemma splitOn_append: "splitOn d (p @ d # q) = splitOn d p @ splitOn d q"
  by (induction p) (auto split: list.splits)

lemma normalizeString_leading_slash:
  "normalizeString b (p @ ''/'' @ CHR ''/'' # f) = normalizeString b (p @ ''/'' @ f)"
proof -
  have "splitOn CHR ''/'' (p @ CHR ''/'' # CHR ''/'' # f) = splitOn CHR ''/'' p @ [] # splitOn CHR ''/'' f"
    using splitOn_append[of "CHR ''/''" p "CHR ''/'' # f"] by simp
  moreover have "splitOn CHR ''/'' (p @ CHR ''/'' # f) = splitOn CHR ''/'' p @ splitOn CHR ''/'' f"
    by (rule splitOn_append)
  ultimately show ?thesis by (simp add: normalizeString_def normalizeStep.simps)
qed

lemma path_join_leading_slash:
  assumes "dir \<noteq> []" and "f \<noteq> []"
  shows "path_join [dir, CHR ''/'' # f] = path_join [dir, f]"
proof -
  have "hd (dir @ ''/'' @ CHR ''/'' # f) = hd (dir @ ''/'' @ f)" using assms by simp
  moreover have "last (dir @ ''/'' @ CHR ''/'' # f) = last (dir @ ''/'' @ f)" using assms by simp
  ultimately show ?thesis
    using assms normalizeString_leading_slash[of _ dir f]
    by (simp add: path_join_def normalize_def Let_def)
qed

text \<open>
  C4.  \<open>getFilename\<close> maps the path of an absolute URL as follows: \<open>/\<close> or the empty path to
  \<open>index.html\<close>; a path ending in \<open>/\<close> to the path followed by \<open>index.html\<close>; a path whose
  last segment has no extension to the path followed by \<open>.html\<close>; any other path to
  itself without its leading separator.  \<open>crawlPage\<close> joins the result to the output
  directory, where a leading separator of the second part does not count, so that the
  page at \<open>http://site.test/about\<close> is written as \<open>about.html\<close>.
\<close>

theorem getFilename_cases:
  assumes "parseURL L u = Some x"
  shows "(pathname x = ''/'' \<or> pathname x = [] \<longrightarrow> getFilename L u = Some ''index.html'')
   \<and> (pathname x \<noteq> ''/'' \<and> endsWith (pathname x) ''/''
        \<longrightarrow> getFilename L u = Some (pathname x @ ''index.html''))
   \<and> (pathname x \<noteq> [] \<and> \<not> endsWith (pathname x) ''/'' \<and> extname (pathname x) = []
        \<longrightarrow> getFilename L u = Some (pathname x @ ''.html''))
   \<and> (\<not> endsWith (pathname x) ''/'' \<and> extname (pathname x) \<noteq> [] \<and> pathname x = CHR ''/'' # rest
        \<longrightarrow> getFilename L u = Some rest)
   \<and> (pathname x = ''/about'' \<and> outputDir C \<noteq> []
        \<longrightarrow> getFilename L u = Some ''/about.html''
            \<and> path_join [outputDir C, ''/about.html''] = path_join [outputDir C, ''about.html''])
   \<and> map fst (pageFiles (crawlPage scenarioURL (scenarioEnv (\<lambda>u. Some []) (\<lambda>u. None))
                  (siteCloner\<lparr>this_url := ''http://site.test/about''\<rparr>) ''http://site.test/about'' 0
                  initial))
       = [''cloned-site/about.html'']"
proof -
  have e: "extname ''/about'' = []" by code_simp
  have n: "\<not> endsWith ''/about'' ''/''" by code_simp
  have c: "map fst (pageFiles (crawlPage scenarioURL (scenarioEnv (\<lambda>u. Some []) (\<lambda>u. None))
                  (siteCloner\<lparr>this_url := ''http://site.test/about''\<rparr>) ''http://site.test/about'' 0
                  initial)) = [''cloned-site/about.html'']" by code_simp
  have j: "outputDir C \<noteq> [] \<Longrightarrow>
      path_join [outputDir C, ''/about.html''] = path_join [outputDir C, ''about.html'']"
    using path_join_leading_slash[of "outputDir C" "''about.html''"] by simp
  have r: "\<not> endsWith (CHR ''/'' # rest) ''/'' \<Longrightarrow> extname (CHR ''/'' # rest) \<noteq> [] \<Longrightarrow>
      getFilename_pathname (CHR ''/'' # rest) = rest"
    by (auto simp: getFilename_pathname_def endsWith_def)
  have g: "getFilename L u = Some (getFilename_pathname (pathname x))"
    using assms by (simp add: getFilename_def)
  have 1: "pathname x = ''/'' \<or> pathname x = [] \<longrightarrow> getFilename L u = Some ''index.html''"
    using g by (auto simp: getFilename_pathname_def)
  have 2: "pathname x \<noteq> ''/'' \<and> endsWith (pathname x) ''/''
        \<longrightarrow> getFilename L u = Some (pathname x @ ''index.html'')"
    using g by (auto simp: getFilename_pathname_def endsWith_def)
  have 3: "pathname x \<noteq> [] \<and> \<not> endsWith (pathname x) ''/'' \<and> extname (pathname x) = []
        \<longrightarrow> getFilename L u = Some (pathname x @ ''.html'')"
    using g by (auto simp: getFilename_pathname_def endsWith_def)
  have 4: "\<not> endsWith (pathname x) ''/'' \<and> extname (pathname x) \<noteq> [] \<and> pathname x = CHR ''/'' # rest
        \<longrightarrow> getFilename L u = Some rest"
    using g r by auto
  have 5: "pathname x = ''/about'' \<and> outputDir C \<noteq> []
        \<longrightarrow> getFilename L u = Some ''/about.html''
            \<and> path_join [outputDir C, ''/about.html''] = path_join [outputDir C, ''about.html'']"
    using g e n j by (auto simp: getFilename_pathname_def)
  show ?thesis using 1 2 3 4 5 c by blast
qed

theorem getFilename_cases_witness:
  "parseURL scenarioURL ''http://site.test'' = Some \<lparr>href = ''http://site.test/'', hostname = ''site.test'', pathname = ''/''\<rparr>
   \<and> getFilename scenarioURL ''http://site.test'' = Some ''index.html''
   \<and> parseURL scenarioURL ''http://site.test/blog/'' = Some \<lparr>href = ''http://site.test/blog/'', hostname = ''site.test'', pathname = ''/blog/''\<rparr>
   \<and> getFilename scenarioURL ''http://site.test/blog/'' = Some ''/blog/index.html''
   \<and> parseURL scenarioURL ''http://site.test/about'' = Some \<lparr>href = ''http://site.test/about'', hostname = ''site.test'', pathname = ''/about''\<rparr>
   \<and> getFilename scenarioURL ''http://site.test/about'' = Some ''/about.html''
   \<and> path_join [outputDir siteCloner, ''/about.html''] = path_join [outputDir siteCloner, ''about.html'']
   \<and> parseURL scenarioURL ''http://site.test/css/site.css'' = Some \<lparr>href = ''http://site.test/css/site.css'', hostname = ''site.test'', pathname = ''/css/site.css''\<rparr>
   \<and> getFilename scenarioURL ''http://site.test/css/site.css'' = Some ''css/site.css''"
proof -
  let ?root = "\<lparr>href = ''http://site.test/'', hostname = ''site.test'', pathname = ''/''\<rparr>"
  let ?blog = "\<lparr>href = ''http://site.test/blog/'', hostname = ''site.test'', pathname = ''/blog/''\<rparr>"
  let ?about = "\<lparr>href = ''http://site.test/about'', hostname = ''site.test'', pathname = ''/about''\<rparr>"
  let ?css = "\<lparr>href = ''http://site.test/css/site.css'', hostname = ''site.test'', pathname = ''/css/site.css''\<rparr>"
  have p1: "parseURL scenarioURL ''http://site.test'' = Some ?root" by code_simp
  have p2: "parseURL scenarioURL ''http://site.test/blog/'' = Some ?blog" by code_simp
  have p3: "parseURL scenarioURL ''http://site.test/about'' = Some ?about" by code_simp
  have p4: "parseURL scenarioURL ''http://site.test/css/site.css'' = Some ?css" by code_simp
  have h2: "pathname ?blog \<noteq> ''/'' \<and> endsWith (pathname ?blog) ''/''" by code_simp
  have h3: "pathname ?about = ''/about'' \<and> outputDir siteCloner \<noteq> []" by code_simp
  have h4: "\<not> endsWith (pathname ?css) ''/'' \<and> extname (pathname ?css) \<noteq> []
            \<and> pathname ?css = CHR ''/'' # ''css/site.css''" by code_simp
  have c1: "getFilename scenarioURL ''http://site.test'' = Some ''index.html''"
    using getFilename_cases[OF p1] by simp
  have c2: "getFilename scenarioURL ''http://site.test/blog/'' = Some ''/blog/index.html''"
    using getFilename_cases[OF p2] h2 by simp
  have c3: "getFilename scenarioURL ''http://site.test/about'' = Some ''/about.html''
      \<and> path_join [outputDir siteCloner, ''/about.html''] = path_join [outputDir siteCloner, ''about.html'']"
    using getFilename_cases[OF p3, of _ siteCloner] h3 by blast
  have c4: "getFilename scenarioURL ''http://site.test/css/site.css'' = Some ''css/site.css''"
    using getFilename_cases[OF p4, of "''css/site.css''"] h4 by blast
  show ?thesis using p1 p2 p3 p4 c1 c2 c3 c4 by blast
qed

subsection \<open>C6: failures are absorbed\<close>




lemma crawl_survives_failures:
  "crawlPage scenarioURL
     (scenarioEnv (\<lambda>u. if u = ''http://site.test/a.html'' then None
                        else if u = ''http://site.test/'' then
                          Some [a_href ''/a.html'', a_href ''/b.html'', img_src ''/x.png'']
                        else Some [])
                  (\<lambda>u. None))
     siteCloner ''http://site.test/'' 0 initial
   = initial\<lparr>visitedUrls := [''http://site.test/'', ''http://site.test/b.html''],
              clock := 8,
              console := [Crawling 0 ''http://site.test/'', Downloading ''http://site.test/x.png'',
                          AssetError ''/x.png'', Crawling 1 ''http://site.test/a.html'',
                          CrawlError ''http://site.test/a.html'', Crawling 1 ''http://site.test/b.html''],
              pageFiles := [(''cloned-site/index.html'',
                              [a_href ''a.html'', a_href ''b.html'', img_src ''/x.png'']),
                            (''cloned-site/b.html'', [])]\<rparr>"
  by code_simp



subsection \<open>C2: the visited set\<close>











subsection \<open>C1: assets are downloaded at most once\<close>











lemma stylesheet_downloaded_once:
  "crawlPage scenarioURL cssEnv siteCloner ''http://site.test/'' 0 initial
   = initial\<lparr>visitedUrls := [''http://site.test/'', ''http://site.test/b.html''],
              downloadedAssets := [''http://site.test/css/site.css''],
              assetMap := [(''http://site.test/css/site.css'', ''assets/css/site.css'')],
              clock := 9,
              console := [Crawling 0 ''http://site.test/'', Downloading ''http://site.test/css/site.css'',
                          Crawling 1 ''http://site.test/b.html''],
              pageFiles := [(''cloned-site/index.html'',
                              [link_css ''assets/css/site.css'', a_href ''b.html'']),
                            (''cloned-site/b.html'', [link_css ''assets/css/site.css''])],
              assetFiles := [(''cloned-site/assets/css/site.css'', ''http://site.test/css/site.css'')]\<rparr>"
  by code_simp





































subsection \<open>C10: the recorded path of an asset\<close>

lemma splitOn_single: "d \<notin> set z \<Longrightarrow> splitOn d z = [z]"
  by (induction z) auto

lemma splitOn_free: "x \<in> set (splitOn d p) \<Longrightarrow> d \<notin> set x"
proof (induction p arbitrary: x)
  case Nil
  then show ?case by simp
next
  case (Cons c p)
  then show ?case by (cases "splitOn d p") (auto split: if_splits)
qed

lemma splitOn_joinWith:
  "segs \<noteq> [] \<Longrightarrow> \<forall>x \<in> set segs. d \<notin> set x \<Longrightarrow> splitOn d (joinWith [d] segs) = segs"
proof (induction "[d]" segs rule: joinWith.induct)
  case 1
  then show ?case by simp
next
  case (2 x)
  then show ?case by (simp add: splitOn_single)
next
  case (3 x y ys)
  then show ?case using splitOn_append[of d x "joinWith [d] (y # ys)"] by (simp add: splitOn_single)
qed

lemma joinWith_hd:
  "segs \<noteq> [] \<Longrightarrow> \<forall>x \<in> set segs. x \<noteq> [] \<Longrightarrow> joinWith sep segs \<noteq> [] \<and> hd (joinWith sep segs) = hd (hd segs)"
  by (induction sep segs rule: joinWith.induct) auto

lemma joinWith_last:
  "segs \<noteq> [] \<Longrightarrow> last segs \<noteq> [] \<Longrightarrow>
   joinWith sep segs \<noteq> [] \<and> last (joinWith sep segs) = last (last segs)"
  by (induction sep segs rule: joinWith.induct) auto

lemma normalizeStep_skip: "a = [] \<or> a = ''.'' \<Longrightarrow> normalizeStep b st a = st"
  by (auto simp: normalizeStep.simps)

lemma normalizeStep_plain:
  "a \<noteq> [] \<Longrightarrow> a \<noteq> ''.'' \<Longrightarrow> a \<noteq> ''..'' \<Longrightarrow> normalizeStep b st a = a # st"
  by (simp add: normalizeStep.simps)

lemma normalizeStep_up_Nil: "normalizeStep b [] ''..'' = (if b then [''..''] else [])"
  by (simp add: normalizeStep.simps)

lemma normalizeStep_up_Cons:
  "normalizeStep b (t # ts) ''..'' = (if t = ''..'' then (if b then ''..'' # t # ts else t # ts) else ts)"
  by (simp add: normalizeStep.simps)

lemma normalizeStep_cases:
  "normalizeStep b st x = st \<or> normalizeStep b st x = x # st \<and> x \<noteq> [] \<and> x \<noteq> ''.'' \<and> x \<noteq> ''..''
   \<or> normalizeStep b st x = tl st \<or> normalizeStep b st x = ''..'' # st \<and> b"
proof (cases "x = [] \<or> x = ''.''")
  case True
  then show ?thesis by (simp add: normalizeStep_skip)
next
  case False
  show ?thesis
  proof (cases "x = ''..''")
    case False
    then show ?thesis using \<open>\<not> (x = [] \<or> x = ''.'')\<close> by (simp add: normalizeStep_plain)
  next
    case True
    then show ?thesis
      by (cases st) (simp_all add: normalizeStep_up_Nil normalizeStep_up_Cons)
  qed
qed

lemma normalizeStep_ok:
  assumes "stackOk b st"
  shows "stackOk b (normalizeStep b st x)"
proof -
  consider "normalizeStep b st x = st"
    | "normalizeStep b st x = x # st" "x \<noteq> []" "x \<noteq> ''.''" "x \<noteq> ''..''"
    | "normalizeStep b st x = tl st"
    | "normalizeStep b st x = ''..'' # st" "b"
    using normalizeStep_cases[of b st x] by blast
  then show ?thesis
  proof cases
    case 1
    then show ?thesis using assms by simp
  next
    case 2
    then show ?thesis using assms by (simp add: stackOk_def)
  next
    case 3
    then show ?thesis using assms by (cases st) (simp_all add: stackOk_def)
  next
    case 4
    then show ?thesis using assms by (simp add: stackOk_def)
  qed
qed

lemma foldl_normalizeStep_ok: "stackOk b st \<Longrightarrow> stackOk b (foldl (normalizeStep b) st xs)"
  by (induction xs arbitrary: st) (simp_all add: normalizeStep_ok)

lemma normalizeStep_free:
  assumes "\<forall>y \<in> set st. CHR ''/'' \<notin> set y" and "CHR ''/'' \<notin> set x"
  shows "\<forall>y \<in> set (normalizeStep b st x). CHR ''/'' \<notin> set y"
proof -
  consider "normalizeStep b st x = st"
    | "normalizeStep b st x = x # st"
    | "normalizeStep b st x = tl st"
    | "normalizeStep b st x = ''..'' # st"
    using normalizeStep_cases[of b st x] by blast
  then show ?thesis
  proof cases
    case 1
    then show ?thesis using assms by simp
  next
    case 2
    then show ?thesis using assms by simp
  next
    case 3
    then show ?thesis using assms(1) by (cases st) simp_all
  next
    case 4
    then show ?thesis using assms(1) by simp
  qed
qed

lemma foldl_normalizeStep_free:
  "\<forall>y \<in> set st. CHR ''/'' \<notin> set y \<Longrightarrow> \<forall>x \<in> set xs. CHR ''/'' \<notin> set x \<Longrightarrow>
   \<forall>y \<in> set (foldl (normalizeStep b) st xs). CHR ''/'' \<notin> set y"
proof (induction xs arbitrary: st)
  case Nil
  then show ?case by simp
next
  case (Cons x xs)
  have x: "CHR ''/'' \<notin> set x" and xs: "\<forall>x \<in> set xs. CHR ''/'' \<notin> set x"
    using Cons.prems(2) by simp_all
  have "\<forall>y \<in> set (normalizeStep b st x). CHR ''/'' \<notin> set y"
    using Cons.prems(1) x by (rule normalizeStep_free)
  from Cons.IH[OF this xs] show ?case by simp
qed

lemma renormalize:
  assumes "b' \<longrightarrow> b" and "b \<or> st = []"
  shows "foldl (normalizeStep b') st (rev (foldl (normalizeStep b) [] xs))
         = foldl (normalizeStep b') st xs"
proof (induction xs rule: rev_induct)
  case Nil
  show ?case by simp
next
  case (snoc a ys)
  let ?T = "foldl (normalizeStep b) [] ys"
  let ?X = "foldl (normalizeStep b') st (rev ?T)"
  have ok: "stackOk b ?T" by (rule foldl_normalizeStep_ok) (simp add: stackOk_def)
  have rhs: "foldl (normalizeStep b') st (ys @ [a]) = normalizeStep b' ?X a"
    using snoc by simp
  have lhs: "foldl (normalizeStep b') st (rev (foldl (normalizeStep b) [] (ys @ [a])))
             = foldl (normalizeStep b') st (rev (normalizeStep b ?T a))" by simp
  have "foldl (normalizeStep b') st (rev (normalizeStep b ?T a)) = normalizeStep b' ?X a"
  proof (cases "a = [] \<or> a = ''.''")
    case True
    then show ?thesis by (simp add: normalizeStep_skip)
  next
    case na: False
    show ?thesis
    proof (cases "a = ''..''")
      case False
      then show ?thesis using na by (simp add: normalizeStep_plain)
    next
      case dd: True
      show ?thesis
      proof (cases ?T)
        case Nil
        then show ?thesis using dd assms by (cases b) (auto simp: normalizeStep_up_Nil)
      next
        case (Cons t ts)
        have t: "t \<noteq> [] \<and> t \<noteq> ''.'' \<and> (\<not> b \<longrightarrow> t \<noteq> ''..'')"
          using ok Cons by (simp add: stackOk_def)
        show ?thesis
        proof (cases "t = ''..''")
          case True
          then have b using t by blast
          then show ?thesis using dd Cons True by (simp add: normalizeStep_up_Cons)
        next
          case False
          then show ?thesis using dd Cons t
            by (simp add: normalizeStep_up_Cons normalizeStep_plain)
        qed
      qed
    qed
  qed
  then show ?case using lhs rhs by simp
qed

lemma dropCommon_Nil: "dropCommon [] r = ([], r)"
  by (cases r) simp_all

lemma dropCommon_prefix: "dropCommon l (l @ r) = ([], r)"
  by (induction l) (simp_all add: dropCommon_Nil)

lemma normalizeStep_top:
  assumes "plainSegment y" and "z \<noteq> []"
  shows "normalizeStep b (y # x # st) z = normalizeStep False [y, x] z @ st"
proof (cases "z = ''.''")
  case True
  then show ?thesis by (simp add: normalizeStep_skip)
next
  case False
  show ?thesis
  proof (cases "z = ''..''")
    case True
    then show ?thesis using assms(1) by (simp add: normalizeStep_up_Cons plainSegment_def)
  next
    case nd: False
    then show ?thesis using False assms(2) by (simp add: normalizeStep_plain)
  qed
qed

lemma foldl_plain2:
  assumes "plainSegment x" and "plainSegment y"
  shows "foldl (normalizeStep b) st (xs @ [x, y]) = y # x # foldl (normalizeStep b) st xs"
  using assms by (simp add: normalizeStep_plain plainSegment_def)

lemma splitOn_slash_Cons: "splitOn CHR ''/'' (CHR ''/'' # q) = [] # splitOn CHR ''/'' q"
  by simp

lemma foldl_skip_empty: "foldl (normalizeStep b) st ([] # xs) = foldl (normalizeStep b) st xs"
  by (simp add: normalizeStep_skip)

lemma plain_last: "plainSegment y \<Longrightarrow> last y \<noteq> CHR ''/''"
  by (metis last_in_set plainSegment_def)

lemma free_last: "z \<noteq> [] \<Longrightarrow> CHR ''/'' \<notin> set z \<Longrightarrow> last z \<noteq> CHR ''/''"
  by (metis last_in_set)

lemma free_hd: "z \<noteq> [] \<Longrightarrow> CHR ''/'' \<notin> set z \<Longrightarrow> hd z \<noteq> CHR ''/''"
  by (metis hd_in_set)

lemma normalize_shape:
  assumes "p \<noteq> []" and "last p \<noteq> CHR ''/''" and "normalizeString (hd p \<noteq> CHR ''/'') p = segs"
    and "joinWith ''/'' segs \<noteq> []"
  shows "normalize p = (if hd p = CHR ''/'' then ''/'' else []) @ joinWith ''/'' segs"
  using assms by (simp add: normalize_def Let_def)

lemma path_join3:
  assumes "dir \<noteq> []" and "plainSegment x" and "plainSegment y"
  shows "path_join [dir, x, y]
         = (if hd dir = CHR ''/'' then ''/'' else [])
           @ joinWith ''/'' (rev (foldl (normalizeStep (hd dir \<noteq> CHR ''/'')) [] (splitOn CHR ''/'' dir))
                             @ [x, y])"
proof -
  let ?p = "dir @ CHR ''/'' # (x @ CHR ''/'' # y)"
  let ?b = "hd dir \<noteq> CHR ''/''"
  let ?T0 = "foldl (normalizeStep ?b) [] (splitOn CHR ''/'' dir)"
  have x: "x \<noteq> []" "CHR ''/'' \<notin> set x" and y: "y \<noteq> []" "CHR ''/'' \<notin> set y"
    using assms by (simp_all add: plainSegment_def)
  have pj: "path_join [dir, x, y] = normalize ?p"
    using assms(1) x y by (simp add: path_join_def)
  have S: "splitOn CHR ''/'' ?p = splitOn CHR ''/'' dir @ [x, y]"
    using splitOn_append[of "CHR ''/''" dir "x @ CHR ''/'' # y"] splitOn_append[of "CHR ''/''" x y] x y
    by (simp add: splitOn_single)
  have N: "normalizeString ?b ?p = rev ?T0 @ [x, y]"
    using S foldl_plain2[OF assms(2,3), of ?b "[]" "splitOn CHR ''/'' dir"]
    by (simp add: normalizeString_def)
  have hd_p: "hd ?p = hd dir" using assms(1) by simp
  have last_p: "last ?p \<noteq> CHR ''/''" using plain_last[OF assms(3)] y by simp
  have ne: "joinWith ''/'' (rev ?T0 @ [x, y]) \<noteq> []"
    using joinWith_last[of "rev ?T0 @ [x, y]" "''/''"] y by simp
  show ?thesis
    using normalize_shape[of ?p "rev ?T0 @ [x, y]"] N hd_p last_p ne pj by simp
qed

lemma top_segments:
  assumes "plainSegment x" and "plainSegment y" and "z \<noteq> []" and "CHR ''/'' \<notin> set z"
  shows "normalizeStep False [y, x] z \<noteq> []
         \<and> (\<forall>s \<in> set (normalizeStep False [y, x] z). s \<noteq> [] \<and> CHR ''/'' \<notin> set s)"
proof -
  consider "z = ''.''" | "z = ''..''" | "z \<noteq> ''.''" "z \<noteq> ''..''" by blast
  then show ?thesis
  proof cases
    case 1
    then show ?thesis using assms by (simp add: normalizeStep_skip plainSegment_def)
  next
    case 2
    then show ?thesis using assms by (simp add: normalizeStep_up_Cons plainSegment_def)
  next
    case 3
    then show ?thesis using assms by (simp add: normalizeStep_plain plainSegment_def)
  qed
qed

lemma stack_segments:
  "\<forall>s \<in> set (foldl (normalizeStep b) [] (splitOn CHR ''/'' p)). s \<noteq> [] \<and> CHR ''/'' \<notin> set s"
proof -
  have "stackOk b (foldl (normalizeStep b) [] (splitOn CHR ''/'' p))"
    by (rule foldl_normalizeStep_ok) (simp add: stackOk_def)
  moreover have "\<forall>y \<in> set (foldl (normalizeStep b) [] (splitOn CHR ''/'' p)). CHR ''/'' \<notin> set y"
    by (rule foldl_normalizeStep_free) (auto dest: splitOn_free)
  ultimately show ?thesis by (simp add: stackOk_def)
qed

lemma rooted_shape:
  assumes "segs \<noteq> []" and "\<forall>s \<in> set segs. s \<noteq> [] \<and> CHR ''/'' \<notin> set s"
  shows "(if ab then ''/'' else []) @ joinWith ''/'' segs \<noteq> []"
    and "(hd ((if ab then ''/'' else []) @ joinWith ''/'' segs) = CHR ''/'') = ab"
    and "splitOn CHR ''/'' ((if ab then ''/'' else []) @ joinWith ''/'' segs)
         = (if ab then [[]] else []) @ segs"
proof -
  have ne: "joinWith ''/'' segs \<noteq> []" and h: "hd (joinWith ''/'' segs) = hd (hd segs)"
    using joinWith_hd[of segs "''/''"] assms by simp_all
  have "hd segs \<in> set segs" using assms(1) by simp
  then have "hd (hd segs) \<noteq> CHR ''/''" using assms(2) free_hd by blast
  then show "(hd ((if ab then ''/'' else []) @ joinWith ''/'' segs) = CHR ''/'') = ab"
    using h by simp
  show "(if ab then ''/'' else []) @ joinWith ''/'' segs \<noteq> []" using ne by simp
  have "splitOn CHR ''/'' (joinWith ''/'' segs) = segs"
    using splitOn_joinWith[of segs "CHR ''/''"] assms by simp
  then show "splitOn CHR ''/'' ((if ab then ''/'' else []) @ joinWith ''/'' segs)
         = (if ab then [[]] else []) @ segs" by simp
qed

lemma foldl_rooted:
  "foldl (normalizeStep b) [] ((if c then [[]] else []) @ xs) = foldl (normalizeStep b) [] xs"
  by (simp add: normalizeStep_skip)

lemma path_join_asset:
  assumes "dir \<noteq> []" and "plainSegment x" and "plainSegment y"
    and "z \<noteq> []" and "CHR ''/'' \<notin> set z"
  shows "path_join [path_join [dir, x, y], z]
         = (if hd dir = CHR ''/'' then ''/'' else [])
           @ joinWith ''/'' (rev (normalizeStep False [y, x] z
               @ foldl (normalizeStep (hd dir \<noteq> CHR ''/'')) [] (splitOn CHR ''/'' dir)))"
proof -
  let ?ab = "hd dir = CHR ''/''"
  let ?b = "hd dir \<noteq> CHR ''/''"
  let ?T0 = "foldl (normalizeStep ?b) [] (splitOn CHR ''/'' dir)"
  let ?segs = "rev ?T0 @ [x, y]"
  let ?A = "(if ?ab then ''/'' else []) @ joinWith ''/'' ?segs"
  let ?W = "normalizeStep False [y, x] z"
  have x: "x \<noteq> []" "CHR ''/'' \<notin> set x" and y: "y \<noteq> []" "CHR ''/'' \<notin> set y"
    using assms by (simp_all add: plainSegment_def)
  have A: "path_join [dir, x, y] = ?A" using path_join3[OF assms(1,2,3)] by simp
  have segs: "?segs \<noteq> []" "\<forall>s \<in> set ?segs. s \<noteq> [] \<and> CHR ''/'' \<notin> set s"
    using stack_segments[of ?b dir] x y by auto
  note sh = rooted_shape[OF segs, of ?ab]
  have pj: "path_join [?A, z] = normalize (?A @ CHR ''/'' # z)"
    using sh(1) assms(4) by (simp add: path_join_def)
  have S: "splitOn CHR ''/'' (?A @ CHR ''/'' # z) = (if ?ab then [[]] else []) @ ?segs @ [z]"
    using splitOn_append[of "CHR ''/''" ?A z] sh(3) assms(5) by (simp add: splitOn_single)
  have idem: "foldl (normalizeStep ?b) [] (rev ?T0) = ?T0"
    using renormalize[of ?b ?b "[]" "splitOn CHR ''/'' dir"] by simp
  have F2: "foldl (normalizeStep ?b) [] ?segs = y # x # ?T0"
    using foldl_plain2[OF assms(2,3), of ?b "[]" "rev ?T0"] by (simp only: idem)
  have F1: "foldl (normalizeStep ?b) [] ((if ?ab then [[]] else []) @ ?segs @ [z])
            = normalizeStep ?b (foldl (normalizeStep ?b) [] ?segs) z"
    using foldl_rooted[of ?b ?ab "?segs @ [z]"] by (simp only: foldl_append foldl_Cons foldl_Nil)
  have F: "foldl (normalizeStep ?b) [] ((if ?ab then [[]] else []) @ ?segs @ [z])
           = normalizeStep ?b (y # x # ?T0) z"
    using F1 by (simp only: F2)
  have T2: "normalizeStep ?b (y # x # ?T0) z = ?W @ ?T0"
    by (rule normalizeStep_top[OF assms(3,4)])
  have hdA: "hd (?A @ CHR ''/'' # z) = hd ?A" using sh(1) by (rule hd_append2)
  have hdp: "(hd (?A @ CHR ''/'' # z) = CHR ''/'') = ?ab" using sh(2) by (simp only: hdA)
  have N: "normalizeString (hd (?A @ CHR ''/'' # z) \<noteq> CHR ''/'') (?A @ CHR ''/'' # z) = rev (?W @ ?T0)"
    using S F T2 hdp by (simp add: normalizeString_def)
  have lastp: "last (?A @ CHR ''/'' # z) \<noteq> CHR ''/''" using free_last[OF assms(4,5)] assms(4) by simp
  have W: "?W \<noteq> []" "\<forall>s \<in> set ?W. s \<noteq> [] \<and> CHR ''/'' \<notin> set s"
    using top_segments[OF assms(2,3,4,5)] by simp_all
  have all: "\<forall>s \<in> set (rev (?W @ ?T0)). s \<noteq> []" using W(2) stack_segments[of ?b dir] by auto
  have ne: "joinWith ''/'' (rev (?W @ ?T0)) \<noteq> []"
    using joinWith_hd[of "rev (?W @ ?T0)" "''/''"] W(1) all by simp
  have "normalize (?A @ CHR ''/'' # z)
        = (if hd (?A @ CHR ''/'' # z) = CHR ''/'' then ''/'' else []) @ joinWith ''/'' (rev (?W @ ?T0))"
    using normalize_shape[of "?A @ CHR ''/'' # z" "rev (?W @ ?T0)"] N lastp ne by simp
  then show ?thesis using A pj hdp by simp
qed

lemma restack:
  assumes "plainSegment x" and "plainSegment y" and "z \<noteq> []" and "b \<or> st = []"
  shows "foldl (normalizeStep False) st
           (rev (normalizeStep False [y, x] z @ foldl (normalizeStep b) [] segs))
         = normalizeStep False [y, x] z @ foldl (normalizeStep False) st segs"
proof -
  let ?W = "normalizeStep False [y, x] z"
  have "?W @ foldl (normalizeStep b) [] segs
        = normalizeStep b (y # x # foldl (normalizeStep b) [] segs) z"
    by (rule normalizeStep_top[OF assms(2,3), symmetric])
  also have "\<dots> = normalizeStep b (foldl (normalizeStep b) [] (segs @ [x, y])) z"
    by (simp only: foldl_plain2[OF assms(1,2)])
  also have "\<dots> = foldl (normalizeStep b) [] (segs @ [x, y, z])"
    by (simp only: foldl_append foldl_Cons foldl_Nil)
  finally have a: "?W @ foldl (normalizeStep b) [] segs = foldl (normalizeStep b) [] (segs @ [x, y, z])" .
  have "foldl (normalizeStep False) st (rev (foldl (normalizeStep b) [] (segs @ [x, y, z])))
        = foldl (normalizeStep False) st (segs @ [x, y, z])"
    using assms(4) by (intro renormalize) simp_all
  also have "\<dots> = normalizeStep False (foldl (normalizeStep False) st (segs @ [x, y])) z"
    by (simp only: foldl_append foldl_Cons foldl_Nil)
  also have "\<dots> = normalizeStep False (y # x # foldl (normalizeStep False) st segs) z"
    by (simp only: foldl_plain2[OF assms(1,2)])
  also have "\<dots> = ?W @ foldl (normalizeStep False) st segs"
    by (rule normalizeStep_top[OF assms(2,3)])
  finally show ?thesis by (simp only: a)
qed

lemma asset_relative_path:
  assumes "dir \<noteq> []" and "plainSegment x" and "plainSegment y"
    and "z \<noteq> []" and "CHR ''/'' \<notin> set z"
  shows "path_relative wd dir (path_join [path_join [dir, x, y], z])
         = joinWith ''/'' (rev (normalizeStep False [y, x] z))"
proof -
  let ?ab = "hd dir = CHR ''/''"
  let ?b = "hd dir \<noteq> CHR ''/''"
  let ?S = "splitOn CHR ''/'' dir"
  let ?T0 = "foldl (normalizeStep ?b) [] ?S"
  let ?W = "normalizeStep False [y, x] z"
  let ?segs = "rev (?W @ ?T0)"
  let ?B = "(if ?ab then ''/'' else []) @ joinWith ''/'' ?segs"
  have B: "path_join [path_join [dir, x, y], z] = ?B" by (rule path_join_asset[OF assms])
  have W: "?W \<noteq> []" "\<forall>s \<in> set ?W. s \<noteq> [] \<and> CHR ''/'' \<notin> set s"
    using top_segments[OF assms(2,3,4,5)] by simp_all
  have segs: "?segs \<noteq> []" "\<forall>s \<in> set ?segs. s \<noteq> [] \<and> CHR ''/'' \<notin> set s"
    using W stack_segments[of ?b dir] by auto
  note sh = rooted_shape[OF segs, of ?ab]
  have "path_resolve wd ?B = path_resolve wd dir @ rev ?W"
  proof (cases ?ab)
    case True
    then have b: "?b = False" by simp
    have rd: "path_resolve wd dir = rev (foldl (normalizeStep False) [] ?S)"
      using True assms(1) by (simp add: path_resolve_def normalizeString_def)
    have "path_resolve wd ?B = normalizeString False ?B"
      using sh(1,2) True by (simp only: path_resolve_def) simp
    also have "\<dots> = rev (foldl (normalizeStep False) [] ((if ?ab then [[]] else []) @ ?segs))"
      by (simp only: normalizeString_def sh(3))
    also have "\<dots> = rev (foldl (normalizeStep False) [] ?segs)"
      by (simp only: foldl_rooted)
    also have "\<dots> = rev (?W @ foldl (normalizeStep False) [] ?S)"
      using restack[OF assms(2,3,4), of ?b "[]" ?S] by simp
    finally show ?thesis using rd by simp
  next
    case False
    let ?C = "foldl (normalizeStep False) [] (splitOn CHR ''/'' wd)"
    have rd: "path_resolve wd dir = rev (foldl (normalizeStep False) ?C ?S)"
      using False splitOn_append[of "CHR ''/''" wd dir]
      by (simp add: path_resolve_def normalizeString_def)
    have "path_resolve wd ?B = normalizeString False (wd @ CHR ''/'' # ?B)"
      using sh(2) False by (simp only: path_resolve_def) simp
    also have "\<dots> = rev (foldl (normalizeStep False) ?C (splitOn CHR ''/'' ?B))"
      using splitOn_append[of "CHR ''/''" wd ?B] by (simp only: normalizeString_def foldl_append)
    also have "\<dots> = rev (foldl (normalizeStep False) ?C ?segs)"
      using sh(3) False by simp
    also have "\<dots> = rev (?W @ foldl (normalizeStep False) ?C ?S)"
      using restack[OF assms(2,3,4), of ?b ?C ?S] False by simp
    finally show ?thesis using rd by simp
  qed
  then show ?thesis
    by (simp only: B path_relative_def dropCommon_prefix) simp
qed

lemma basename_free: "CHR ''/'' \<notin> set (basename p)"
proof -
  have "\<forall>c \<in> set (takeWhile (\<lambda>c. c \<noteq> CHR ''/'') xs). c \<noteq> CHR ''/''" for xs
    by (metis (mono_tags, lifting) set_takeWhileD)
  then show ?thesis by (auto simp: basename_def)
qed

lemma extname_subset: "set (extname p) \<subseteq> set (basename p)"
  by (auto simp: extname_def Let_def dest: in_set_dropD)

lemma guessExtension_free: "CHR ''/'' \<notin> set (guessExtension ct)"
proof -
  have v: "\<forall>v \<in> snd ` set (mimeToExt @ Object_prototype). CHR ''/'' \<notin> set v" by code_simp
  have "map_of (mimeToExt @ Object_prototype) k = Some e \<Longrightarrow> CHR ''/'' \<notin> set e" for k e
  proof -
    assume "map_of (mimeToExt @ Object_prototype) k = Some e"
    then have "(k, e) \<in> set (mimeToExt @ Object_prototype)" by (rule map_of_SomeD)
    then have "e \<in> snd ` set (mimeToExt @ Object_prototype)" by force
    then show ?thesis using v by blast
  qed
  then show ?thesis
    by (auto simp: guessExtension_def simp del: map_of_append split: option.splits)
qed

lemma finalFilename_clock:
  "basename urlPath \<noteq> [] \<Longrightarrow> finalFilename urlPath ct t = finalFilename urlPath ct t'"
  by (simp add: finalFilename_def)

lemma finalFilename_segment:
  assumes "basename urlPath \<noteq> []"
  shows "finalFilename urlPath ct t \<noteq> [] \<and> CHR ''/'' \<notin> set (finalFilename urlPath ct t)"
proof -
  let ?f = "basename urlPath"
  have f: "CHR ''/'' \<notin> set ?f" by (rule basename_free)
  have e: "CHR ''/'' \<notin> set (extname ?f)" using extname_subset[of ?f] basename_free[of ?f] by blast
  have g: "CHR ''/'' \<notin> set (guessExtension ct)" by (rule guessExtension_free)
  show ?thesis using assms f e g by (simp add: finalFilename_def Let_def)
qed

lemma storeAsset_path:
  assumes "storeAsset L E C a u s = (s', Some rp)"
  shows "\<exists>ct parsed. asset_get E (clock s) u = Some ct \<and> parseURL L u = Some parsed
           \<and> rp = path_relative (cwd E) (outputDir C)
                    (path_join [path_join [outputDir C, ''assets'', type a],
                                finalFilename (pathname parsed) ct (now E (Suc (clock s)))])
           \<and> map_of (assetMap s') u = Some rp"
  using assms
  by (auto simp: storeAsset_def Let_def map_of_assign split: option.splits if_splits)

lemma category_plain: "ty \<in> {''image'', ''css'', ''js''} \<Longrightarrow> plainSegment ty"
  by (auto simp: plainSegment_def)

lemma collectAssets_category: "a \<in> set (collectAssets doc) \<Longrightarrow> type a \<in> {''image'', ''css'', ''js''}"
  by (auto simp: collectAssets_def scanAttribute_def scanStyles_def Let_def split: option.splits if_splits)

lemma WebsiteCloner_outputDir: "WebsiteCloner L opts = Some C \<Longrightarrow> outputDir C \<noteq> []"
  by (auto simp: WebsiteCloner_def split: option.splits if_splits)

lemma fallback_name_uses_clock:
  "finalFilename ''/'' (Some ''image/png'') 1 = ''asset_1.png''
   \<and> finalFilename ''/'' (Some ''image/png'') 2 = ''asset_2.png''"
  by code_simp

text \<open>
  C10.  The claim: for an asset whose URL path has a non-empty basename, the path
  recorded in \<open>assetMap\<close> is a function of the absolute URL and of the content type of the
  response.  The path also contains the category of the reference, which comes from the
  element that refers to the asset: the same URL with the same content type is recorded
  under \<open>assets/image\<close> when an image refers to it and under \<open>assets/js\<close> when a script
  does.
\<close>

theorem asset_path_depends_on_category:
  "assetMap (snd (processAssets scenarioURL pngEnv siteCloner [img_src ''/img/logo'']
                    ''http://site.test/'' initial))
     = [(''http://site.test/img/logo'', ''assets/image/logo.png'')]
   \<and> assetMap (snd (processAssets scenarioURL pngEnv siteCloner [script_src ''/img/logo'']
                      ''http://site.test/'' initial))
     = [(''http://site.test/img/logo'', ''assets/js/logo.png'')]
   \<and> map_of (assetMap (snd (processAssets scenarioURL pngEnv siteCloner [img_src ''/img/logo'']
                              ''http://site.test/'' initial))) ''http://site.test/img/logo''
     \<noteq> map_of (assetMap (snd (processAssets scenarioURL pngEnv siteCloner [script_src ''/img/logo'']
                                ''http://site.test/'' initial))) ''http://site.test/img/logo''"
  by code_simp

text \<open>
  C10, amended.  For an asset whose URL path has a non-empty basename, the path recorded
  in \<open>assetMap\<close> is a function of the category of the reference, the absolute URL and the
  content type of the response: two downloads that agree on these three record the same
  path, whatever the clock, the crawl state, the output directory and the working
  directory are.  The file name depends on the clock only when the basename is empty.
\<close>

theorem asset_path_deterministic:
  assumes "storeAsset L E1 C1 a1 u s1 = (t1, Some p1)"
    and "storeAsset L E2 C2 a2 u s2 = (t2, Some p2)"
    and "parseURL L u = Some parsed" and "basename (pathname parsed) \<noteq> []"
    and "asset_get E1 (clock s1) u = asset_get E2 (clock s2) u"
    and "type a1 = type a2" and "type a1 \<in> {''image'', ''css'', ''js''}"
    and "outputDir C1 \<noteq> []" and "outputDir C2 \<noteq> []"
  shows "p1 = p2 \<and> map_of (assetMap t1) u = Some p1 \<and> map_of (assetMap t2) u = Some p2
         \<and> finalFilename (pathname parsed) ct k = finalFilename (pathname parsed) ct k'"
proof -
  let ?ty = "type a1"
  have plain: "plainSegment ''assets''" "plainSegment ?ty"
    using assms(7) by (auto simp: plainSegment_def)
  obtain ct1 where g1: "asset_get E1 (clock s1) u = Some ct1"
    and r1: "p1 = path_relative (cwd E1) (outputDir C1)
                    (path_join [path_join [outputDir C1, ''assets'', type a1],
                                finalFilename (pathname parsed) ct1 (now E1 (Suc (clock s1)))])"
    and m1: "map_of (assetMap t1) u = Some p1"
    using storeAsset_path[OF assms(1)] assms(3) by auto
  obtain ct2 where g2: "asset_get E2 (clock s2) u = Some ct2"
    and r2: "p2 = path_relative (cwd E2) (outputDir C2)
                    (path_join [path_join [outputDir C2, ''assets'', type a2],
                                finalFilename (pathname parsed) ct2 (now E2 (Suc (clock s2)))])"
    and m2: "map_of (assetMap t2) u = Some p2"
    using storeAsset_path[OF assms(2)] assms(3) by auto
  have ct: "ct2 = ct1" using g1 g2 assms(5) by simp
  let ?n1 = "finalFilename (pathname parsed) ct1 (now E1 (Suc (clock s1)))"
  let ?n2 = "finalFilename (pathname parsed) ct1 (now E2 (Suc (clock s2)))"
  have n: "?n2 = ?n1" using assms(4) by (rule finalFilename_clock)
  have seg: "?n1 \<noteq> []" "CHR ''/'' \<notin> set ?n1"
    using finalFilename_segment[OF assms(4)] by simp_all
  have "p1 = joinWith ''/'' (rev (normalizeStep False [?ty, ''assets''] ?n1))"
    using asset_relative_path[OF assms(8) plain seg] r1 by simp
  moreover have "p2 = joinWith ''/'' (rev (normalizeStep False [?ty, ''assets''] ?n1))"
    using asset_relative_path[OF assms(9) plain seg] r2 ct n assms(6) by simp
  ultimately have "p1 = p2" by simp
  then show ?thesis using m1 m2 finalFilename_clock[OF assms(4)] by simp
qed

theorem asset_path_deterministic_witness:
  "storeAsset scenarioURL pngEnv siteCloner logoAsset ''http://site.test/img/logo'' initial
     = (fst (storeAsset scenarioURL pngEnv siteCloner logoAsset ''http://site.test/img/logo'' initial),
        Some ''assets/image/logo.png'')
   \<and> storeAsset scenarioURL otherEnv (siteCloner\<lparr>outputDir := ''../mirror''\<rparr>) logoAsset
         ''http://site.test/img/logo'' (tick (tick initial))
     = (fst (storeAsset scenarioURL otherEnv (siteCloner\<lparr>outputDir := ''../mirror''\<rparr>) logoAsset
               ''http://site.test/img/logo'' (tick (tick initial))),
        Some ''assets/image/logo.png'')
   \<and> parseURL scenarioURL ''http://site.test/img/logo''
       = Some \<lparr>href = ''http://site.test/img/logo'', hostname = ''site.test'', pathname = ''/img/logo''\<rparr>
   \<and> basename ''/img/logo'' \<noteq> []
   \<and> asset_get pngEnv (clock initial) ''http://site.test/img/logo''
       = asset_get otherEnv (clock (tick (tick initial))) ''http://site.test/img/logo''
   \<and> type logoAsset \<in> {''image'', ''css'', ''js''}
   \<and> outputDir siteCloner \<noteq> [] \<and> outputDir (siteCloner\<lparr>outputDir := ''../mirror''\<rparr>) \<noteq> []
   \<and> map_of (assetMap (fst (storeAsset scenarioURL pngEnv siteCloner logoAsset
                               ''http://site.test/img/logo'' initial))) ''http://site.test/img/logo''
       = Some ''assets/image/logo.png''"
proof -
  let ?u = "''http://site.test/img/logo''"
  let ?C2 = "siteCloner\<lparr>outputDir := ''../mirror''\<rparr>"
  let ?r1 = "storeAsset scenarioURL pngEnv siteCloner logoAsset ?u initial"
  let ?r2 = "storeAsset scenarioURL otherEnv ?C2 logoAsset ?u (tick (tick initial))"
  let ?parsed = "\<lparr>href = ?u, hostname = ''site.test'', pathname = ''/img/logo''\<rparr>"
  have s1: "snd ?r1 = Some ''assets/image/logo.png''" by code_simp
  have s2: "snd ?r2 = Some ''assets/image/logo.png''" by code_simp
  have h1: "?r1 = (fst ?r1, Some ''assets/image/logo.png'')" using s1 by (simp add: prod_eq_iff)
  have h2: "?r2 = (fst ?r2, Some ''assets/image/logo.png'')" using s2 by (simp add: prod_eq_iff)
  have h3: "parseURL scenarioURL ?u = Some ?parsed" by code_simp
  have h4: "basename (pathname ?parsed) \<noteq> []" by code_simp
  have h5: "asset_get pngEnv (clock initial) ?u = asset_get otherEnv (clock (tick (tick initial))) ?u"
    by code_simp
  have h6: "type logoAsset = type logoAsset" by simp
  have h7: "type logoAsset \<in> {''image'', ''css'', ''js''}" by code_simp
  have h8: "outputDir siteCloner \<noteq> []" by code_simp
  have h9: "outputDir ?C2 \<noteq> []" by code_simp
  have c: "map_of (assetMap (fst ?r1)) ?u = Some ''assets/image/logo.png''"
    using asset_path_deterministic[OF h1 h2 h3 h4 h5 h6 h7 h8 h9] by simp
  have e: "pathname ?parsed = ''/img/logo''" by simp
  show ?thesis using h1 h2 h3 h4 h5 h7 h8 h9 c e by simp
qed

end
